theory Spec2Isabelle
  imports Main "HOL-Library.Word"
begin

unbundle bit_operations_syntax

section \<open>Kunda-Zip: the container codec, path prefixes and presets of kunda\_zip.c\<close>

text \<open>
  A shallow embedding of \<^verbatim>\<open>src/c/kunda_zip.c\<close>. A \<^verbatim>\<open>uint8_t\<close> is an
  \<open>8 word\<close>, \<^verbatim>\<open>uint16_t\<close> a \<open>16 word\<close>, \<^verbatim>\<open>uint32_t\<close> a \<open>32 word\<close> and
  \<^verbatim>\<open>size_t\<close> (where its width matters) a \<open>64 word\<close>. A buffer is a list of bytes.
  A C string is the list of its bytes before the terminating NUL.
\<close>

type_synonym byte = "8 word"

subsection \<open>Big-endian integers (lines 414--434)\<close>

text \<open>
  \<^verbatim>\<open>write_uint16_be(buf, val)\<close> stores two bytes at \<^verbatim>\<open>buf\<close>; the model returns the
  bytes stored. The readers take the buffer that starts at \<^verbatim>\<open>buf\<close>.
\<close>

definition write_uint16_be :: "16 word \<Rightarrow> byte list" where
  "write_uint16_be val = [ucast (drop_bit 8 val AND 0xFF), ucast (val AND 0xFF)]"

definition write_uint32_be :: "32 word \<Rightarrow> byte list" where
  "write_uint32_be val =
     [ucast (drop_bit 24 val AND 0xFF), ucast (drop_bit 16 val AND 0xFF),
      ucast (drop_bit 8 val AND 0xFF), ucast (val AND 0xFF)]"

definition read_uint16_be :: "byte list \<Rightarrow> 16 word" where
  "read_uint16_be buf = push_bit 8 (ucast (buf ! 0)) OR ucast (buf ! 1)"

definition read_uint32_be :: "byte list \<Rightarrow> 32 word" where
  "read_uint32_be buf =
     push_bit 24 (ucast (buf ! 0)) OR push_bit 16 (ucast (buf ! 1)) OR
     push_bit 8 (ucast (buf ! 2)) OR ucast (buf ! 3)"

subsection \<open>Dictionary size (lines 301--325)\<close>

text \<open>
  The loop \<^verbatim>\<open>while (rounded < dict_size) rounded <<= 1;\<close> on \<^verbatim>\<open>size_t\<close>. It need not
  terminate for every start value (\<open>rounded = 0\<close> never grows), so not returning is the
  value \<open>None\<close>.
\<close>

partial_function (option) round_up_loop :: "64 word \<Rightarrow> 64 word \<Rightarrow> 64 word option" where
  "round_up_loop rounded dict_size =
     (if rounded < dict_size then round_up_loop (push_bit 1 rounded) dict_size
      else Some rounded)"

definition get_optimal_dict_size :: "64 word option" where
  "get_optimal_dict_size =
     (let dict_size = 256 * 1024 * 1024 in
      case round_up_loop 1 dict_size of
        None \<Rightarrow> None
      | Some rounded \<Rightarrow>
          let rounded = (if rounded > dict_size then drop_bit 1 rounded else rounded);
              dict_size = rounded;
              dict_size = (if dict_size < 64 * 1024 * 1024 then 64 * 1024 * 1024 else dict_size);
              dict_size = (if dict_size > 1536 * 1024 * 1024 then 1536 * 1024 * 1024 else dict_size)
          in Some dict_size)"

subsection \<open>Outcomes\<close>

text \<open>
  The C code either returns normally, returns \<^verbatim>\<open>-1\<close> after printing a message, or
  runs into undefined behaviour (an access outside an object, a signed overflow). Each of
  these is a value of the model: \<open>Inr\<close> is the normal return, \<open>Inl\<close> names what
  went wrong.
\<close>

datatype failure =
    Read_past_end \<comment> \<open>a read outside the buffer it addresses (undefined behaviour)\<close>
  | Write_past_end \<comment> \<open>a write outside the allocated output buffer (undefined behaviour)\<close>
  | Path_buffer_overrun \<comment> \<open>a write outside a \<^verbatim>\<open>char[MAX_PATH_LEN]\<close> (undefined behaviour)\<close>
  | Prefix_index_out_of_range \<comment> \<open>\<^verbatim>\<open>prefixes[prefix_idx]\<close> outside the table (undefined behaviour)\<close>
  | Int_overflow \<comment> \<open>a value outside \<^verbatim>\<open>int\<close> (undefined behaviour)\<close>
  | Does_not_return \<comment> \<open>a loop that never ends\<close>
  | Out_of_memory \<comment> \<open>\<^verbatim>\<open>return -1\<close> after \<^verbatim>\<open>malloc\<close> returned NULL\<close>
  | Invalid_archive \<comment> \<open>\<^verbatim>\<open>return -1\<close> after "Invalid Kunda archive"\<close>
  | Decompression_failed \<comment> \<open>\<^verbatim>\<open>return -1\<close> after the decoder failed\<close>

subsection \<open>C strings and the C library\<close>

definition ascii :: "string \<Rightarrow> byte list" where
  "ascii s = map of_char s"

definition MAX_PATH_LEN :: nat where
  "MAX_PATH_LEN = 4096"

definition MAX_PREFIXES :: nat where
  "MAX_PREFIXES = 1000"

text \<open>The content of a \<^verbatim>\<open>char\<close> array read as a C string: the bytes before the first NUL.\<close>

definition cstr :: "byte list \<Rightarrow> byte list" where
  "cstr bs = takeWhile (\<lambda>b. b \<noteq> 0) bs"

text \<open>
  \<^verbatim>\<open>strchr(s, c)\<close> on a C string: the rest of the string from the first \<open>c\<close> on, or
  \<open>None\<close> for the NULL pointer.
\<close>

definition strchr :: "byte list \<Rightarrow> byte \<Rightarrow> byte list option" where
  "strchr s c = (if c \<in> set s then Some (dropWhile (\<lambda>b. b \<noteq> c) s) else None)"

definition isspace :: "byte \<Rightarrow> bool" where
  "isspace c = (c = 32 \<or> (9 \<le> c \<and> c \<le> 13))"

definition isdigit :: "byte \<Rightarrow> bool" where
  "isdigit c = (48 \<le> c \<and> c \<le> 57)"

fun digits_value :: "nat \<Rightarrow> byte list \<Rightarrow> nat" where
  "digits_value acc [] = acc"
| "digits_value acc (c # cs) =
     (if isdigit c then digits_value (acc * 10 + (unat c - 48)) cs else acc)"

text \<open>
  \<^verbatim>\<open>atoi\<close>: white space, an optional sign, then decimal digits up to the first other
  character; no digits give 0. A value that does not fit \<^verbatim>\<open>int\<close> is undefined
  behaviour in C: \<open>None\<close>.
\<close>

definition atoi :: "byte list \<Rightarrow> int option" where
  "atoi nptr =
     (let s = dropWhile isspace nptr;
          neg = (s \<noteq> [] \<and> hd s = 45);
          s = (if s \<noteq> [] \<and> (hd s = 45 \<or> hd s = 43) then tl s else s);
          v = int (digits_value 0 s);
          r = (if neg then - v else v)
      in if - 2147483648 \<le> r \<and> r \<le> 2147483647 then Some r else None)"

subsection \<open>Preset resolution (lines 327--379 of \<^verbatim>\<open>compress_lzma_ultra\<close>)\<close>

text \<open>
  Up to the choice of the encoder, \<^verbatim>\<open>compress_lzma_ultra\<close> computes a level, a dictionary
  size and the options of the filter chain, and then initialises one of two liblzma
  encoders. The model returns what the encoder is initialised with. liblzma is not part
  of the repository: its constants are constructors (\<open>MF_BT4\<close>, \<open>CHECK_CRC64\<close>), and
  \<open>LZMA_PRESET_EXTREME\<close> is the flag bit of \<^verbatim>\<open>lzma.h\<close>. \<^verbatim>\<open>lzma_lzma_preset\<close> fills the
  options from the preset (field \<open>from_preset\<close>) before the code overwrites six of
  them; it accepts every level from 0 to 9.
\<close>

definition LZMA_PRESET_EXTREME :: "32 word" where
  "LZMA_PRESET_EXTREME = 0x80000000"

datatype match_finder = MF_HC3 | MF_HC4 | MF_BT2 | MF_BT3 | MF_BT4

datatype lzma_check = CHECK_NONE | CHECK_CRC32 | CHECK_CRC64 | CHECK_SHA256

record lzma_options_lzma =
  from_preset :: "32 word"
  dict_size :: "32 word"
  lc :: "32 word"
  lp :: "32 word"
  pb :: "32 word"
  depth :: "32 word"
  mf :: match_finder

datatype encoder =
    Stream_encoder lzma_options_lzma lzma_check
      \<comment> \<open>\<^verbatim>\<open>lzma_stream_encoder\<close> with the one-filter LZMA2 chain over these options\<close>
  | Easy_encoder "32 word" lzma_check
      \<comment> \<open>\<^verbatim>\<open>lzma_easy_encoder\<close> with this preset\<close>

record encoder_setup =
  preset_level :: "32 word"
  dict_size_chosen :: "32 word"
  encoder_used :: encoder

text \<open>
  Lines 333--352: the chain of comparisons. \<^verbatim>\<open>atoi(preset + 6) * 1024 * 1024\<close> is
  \<^verbatim>\<open>int\<close> arithmetic, converted to \<^verbatim>\<open>uint32_t\<close> by the assignment.
\<close>

definition choose_level_dict :: "byte list \<Rightarrow> failure + (32 word \<times> 32 word)" where
  "choose_level_dict preset =
     (if preset = ascii ''ultra'' then
        (case get_optimal_dict_size of
           None \<Rightarrow> Inl Does_not_return
         | Some d \<Rightarrow> Inr (9, ucast d))
      else if take 6 preset = ascii ''ultra-'' then
        (case atoi (drop 6 preset) of
           None \<Rightarrow> Inl Int_overflow
         | Some n \<Rightarrow>
             if - 2147483648 \<le> n * 1024 * 1024 \<and> n * 1024 * 1024 \<le> 2147483647
             then Inr (9, of_int (n * 1024 * 1024))
             else Inl Int_overflow)
      else if preset = ascii ''max'' then Inr (9, 256 * 1024 * 1024)
      else if preset = ascii ''balanced'' then Inr (6, 128 * 1024 * 1024)
      else Inr (3, 64 * 1024 * 1024))"

text \<open>Lines 357--379: the options, then the encoder chosen by \<^verbatim>\<open>strncmp(preset, "ultra", 5)\<close>.\<close>

definition compress_lzma_ultra_setup :: "byte list \<Rightarrow> failure + encoder_setup" where
  "compress_lzma_ultra_setup preset =
     (case choose_level_dict preset of
        Inl e \<Rightarrow> Inl e
      | Inr (level, dict) \<Rightarrow>
          let opt = \<lparr>from_preset = level OR LZMA_PRESET_EXTREME, dict_size = dict,
                     lc = 3, lp = 0, pb = 2, depth = 273, mf = MF_BT4\<rparr>
          in Inr \<lparr>preset_level = level, dict_size_chosen = dict,
                  encoder_used =
                    (if take 5 preset = ascii ''ultra''
                     then Stream_encoder opt CHECK_CRC64
                     else Easy_encoder (level OR LZMA_PRESET_EXTREME) CHECK_CRC64)\<rparr>)"

subsection \<open>The archive in memory (lines 35--55)\<close>

text \<open>
  \<^verbatim>\<open>FileEntry\<close> and \<^verbatim>\<open>PathPrefix\<close>. The \<^verbatim>\<open>char[MAX_PATH_LEN]\<close> fields hold C strings:
  the model keeps the string, which has no NUL byte and fewer than \<open>MAX_PATH_LEN\<close>
  bytes (see \<open>c_string\<close> below). \<^verbatim>\<open>size\<close> is the length of \<^verbatim>\<open>content\<close>; \<^verbatim>\<open>type\<close> is
  only printed and is left out. \<^verbatim>\<open>count\<close> is an \<^verbatim>\<open>int\<close> that is incremented at most
  once per file, so it can only overflow in an archive of more than \<open>2^31\<close> files; the
  model counts in \<open>int\<close>.
\<close>

record FileEntry =
  path :: "byte list"
  content :: "byte list"
  is_duplicate :: bool
  duplicate_of :: "byte list"

record PathPrefix =
  prefix :: "byte list"
  count :: int

definition c_string :: "byte list \<Rightarrow> bool" where
  "c_string s = (0 \<notin> set s \<and> length s < MAX_PATH_LEN)"

subsection \<open>Path prefixes (lines 238--299, \<^verbatim>\<open>compress_paths\<close>)\<close>

text \<open>Lines 254--261: the linear search for the prefix, first match.\<close>

fun find_prefix :: "PathPrefix list \<Rightarrow> byte list \<Rightarrow> nat option" where
  "find_prefix [] p = None"
| "find_prefix (e # es) p =
     (if prefix e = p then Some 0 else map_option Suc (find_prefix es p))"

text \<open>Lines 263--269: count a known prefix, add a new one while the table has room.\<close>

definition count_prefix :: "PathPrefix list \<Rightarrow> byte list \<Rightarrow> PathPrefix list" where
  "count_prefix prefixes p =
     (case find_prefix prefixes p of
        Some found \<Rightarrow> prefixes[found := (prefixes ! found)\<lparr>count := count (prefixes ! found) + 1\<rparr>]
      | None \<Rightarrow>
          if length prefixes < MAX_PREFIXES
          then prefixes @ [\<lparr>prefix = p, count = 1\<rparr>]
          else prefixes)"

text \<open>
  Lines 248--272: the loop over the slashes of one path, left to right. \<open>seen\<close> is the
  part of the path up to the current position, so at a slash \<open>seen @ [c]\<close> is the
  prefix that ends with it (47 is the slash).
\<close>

fun count_path_prefixes :: "byte list \<Rightarrow> byte list \<Rightarrow> PathPrefix list \<Rightarrow> PathPrefix list" where
  "count_path_prefixes seen [] prefixes = prefixes"
| "count_path_prefixes seen (c # rest) prefixes =
     (if c = 47
      then count_path_prefixes (seen @ [c]) rest (count_prefix prefixes (seen @ [c]))
      else count_path_prefixes (seen @ [c]) rest prefixes)"

text \<open>
  Lines 276--285: the in-place filter. One step of the loop at index \<open>i\<close>, on the table
  and \<^verbatim>\<open>filtered_count\<close>; afterwards the table is cut to \<^verbatim>\<open>filtered_count\<close> entries.
\<close>

definition filter_step :: "nat \<Rightarrow> PathPrefix list \<times> nat \<Rightarrow> PathPrefix list \<times> nat" where
  "filter_step i s =
     (case s of (prefixes, filtered_count) \<Rightarrow>
        if count (prefixes ! i) \<ge> 3
        then ((if i \<noteq> filtered_count then prefixes[filtered_count := prefixes ! i] else prefixes),
              filtered_count + 1)
        else (prefixes, filtered_count))"

definition filter_prefixes :: "PathPrefix list \<Rightarrow> PathPrefix list" where
  "filter_prefixes prefixes =
     (case fold filter_step [0..<length prefixes] (prefixes, 0) of
        (prefixes', filtered_count) \<Rightarrow> take filtered_count prefixes')"

text \<open>
  Lines 288--296: the exchange sort, longest prefix first. \<^verbatim>\<open>strlen\<close> of a stored prefix
  is the length of the string.
\<close>

definition sort_step :: "nat \<Rightarrow> nat \<Rightarrow> PathPrefix list \<Rightarrow> PathPrefix list" where
  "sort_step i j prefixes =
     (if length (prefix (prefixes ! j)) > length (prefix (prefixes ! i))
      then prefixes[i := prefixes ! j, j := prefixes ! i]
      else prefixes)"

definition sort_prefixes :: "PathPrefix list \<Rightarrow> PathPrefix list" where
  "sort_prefixes prefixes =
     (let n = length prefixes in
      fold (\<lambda>i. fold (sort_step i) [i + 1..<n]) [0..<n] prefixes)"

text \<open>
  \<^verbatim>\<open>compress_paths\<close> on a fresh archive (\<^verbatim>\<open>prefix_count = 0\<close>, as \<^verbatim>\<open>archive_create\<close> leaves
  it): the early return for at most one file, then counting, filtering and sorting. The
  result is the prefix table.
\<close>

definition compress_paths :: "FileEntry list \<Rightarrow> PathPrefix list" where
  "compress_paths files =
     (if length files \<le> 1 then []
      else sort_prefixes (filter_prefixes
             (fold (\<lambda>f. count_path_prefixes [] (path f)) files [])))"

text \<open>
  Lines 155--174, \<^verbatim>\<open>archive_add_file\<close>: the only place that creates a \<^verbatim>\<open>FileEntry\<close>.
  \<^verbatim>\<open>strncpy\<close> keeps at most \<open>MAX_PATH_LEN - 1\<close> bytes of the path; \<^verbatim>\<open>is_duplicate\<close> is 0
  and \<^verbatim>\<open>duplicate_of\<close> is left as allocated (never read for such an entry).
\<close>

definition archive_add_file :: "FileEntry list \<Rightarrow> byte list \<Rightarrow> byte list \<Rightarrow> FileEntry list" where
  "archive_add_file files p c =
     files @ [\<lparr>path = take (MAX_PATH_LEN - 1) p, content = c, is_duplicate = False,
               duplicate_of = []\<rparr>]"

subsection \<open>The binary format, written (lines 513--586 of \<^verbatim>\<open>create_archive\<close>)\<close>

definition total_size :: "FileEntry list \<Rightarrow> nat" where
  "total_size files = sum_list (map (\<lambda>f. length (content f)) files)"

definition binary_capacity :: "FileEntry list \<Rightarrow> nat" where
  "binary_capacity files = total_size files + length files * 1024"

text \<open>
  One store into \<^verbatim>\<open>binary_data\<close> at \<^verbatim>\<open>offset\<close> (a \<^verbatim>\<open>write_uint*_be\<close> or a \<^verbatim>\<open>memcpy\<close>),
  followed by \<^verbatim>\<open>offset += n\<close>. The code writes front to back, so the buffer written so
  far is a list and \<^verbatim>\<open>offset\<close> is its length. The buffer has \<^verbatim>\<open>binary_capacity\<close> bytes.
\<close>

definition store :: "nat \<Rightarrow> byte list \<Rightarrow> byte list \<Rightarrow> failure + byte list" where
  "store capacity binary_data bs =
     (if length binary_data + length bs \<le> capacity then Inr (binary_data @ bs)
      else Inl Write_past_end)"

text \<open>Lines 551--557. The conversion of a \<^verbatim>\<open>size_t\<close> to \<^verbatim>\<open>uint16_t\<close> is \<open>of_nat\<close>.\<close>

fun write_prefixes :: "nat \<Rightarrow> PathPrefix list \<Rightarrow> byte list \<Rightarrow> failure + byte list" where
  "write_prefixes capacity [] binary_data = Inr binary_data"
| "write_prefixes capacity (p # ps) binary_data =
     (case store capacity binary_data (write_uint16_be (of_nat (length (prefix p)))) of
        Inl e \<Rightarrow> Inl e
      | Inr binary_data \<Rightarrow>
     (case store capacity binary_data (prefix p) of
        Inl e \<Rightarrow> Inl e
      | Inr binary_data \<Rightarrow> write_prefixes capacity ps binary_data))"

text \<open>Lines 564--585: one file record.\<close>

definition write_file :: "nat \<Rightarrow> FileEntry \<Rightarrow> byte list \<Rightarrow> failure + byte list" where
  "write_file capacity file binary_data =
     (case store capacity binary_data (write_uint16_be (of_nat (length (path file)))) of
        Inl e \<Rightarrow> Inl e
      | Inr binary_data \<Rightarrow>
     (case store capacity binary_data (path file) of
        Inl e \<Rightarrow> Inl e
      | Inr binary_data \<Rightarrow>
          if is_duplicate file then
            (case store capacity binary_data (write_uint32_be 0xFFFFFFFF) of
               Inl e \<Rightarrow> Inl e
             | Inr binary_data \<Rightarrow>
            (case store capacity binary_data
                    (write_uint16_be (of_nat (length (duplicate_of file)))) of
               Inl e \<Rightarrow> Inl e
             | Inr binary_data \<Rightarrow> store capacity binary_data (duplicate_of file)))
          else
            (case store capacity binary_data
                    (write_uint32_be (of_nat (length (content file)))) of
               Inl e \<Rightarrow> Inl e
             | Inr binary_data \<Rightarrow> store capacity binary_data (content file))))"

fun write_files :: "nat \<Rightarrow> FileEntry list \<Rightarrow> byte list \<Rightarrow> failure + byte list" where
  "write_files capacity [] binary_data = Inr binary_data"
| "write_files capacity (f # fs) binary_data =
     (case write_file capacity f binary_data of
        Inl e \<Rightarrow> Inl e
      | Inr binary_data \<Rightarrow> write_files capacity fs binary_data)"

text \<open>
  Lines 538--588: the whole binary format, the buffer up to \<^verbatim>\<open>original_size\<close>. Whether
  \<^verbatim>\<open>malloc(binary_capacity)\<close> succeeds is not for the code to know: \<open>malloc_succeeds\<close> is a
  parameter. When it returns NULL the archive is freed and \<^verbatim>\<open>create_archive\<close> returns
  \<^verbatim>\<open>-1\<close> (lines 540--543).
\<close>

definition create_binary_format ::
  "(nat \<Rightarrow> bool) \<Rightarrow> PathPrefix list \<Rightarrow> FileEntry list \<Rightarrow> failure + byte list" where
  "create_binary_format malloc_succeeds prefixes files =
     (let capacity = binary_capacity files in
      if \<not> malloc_succeeds capacity then Inl Out_of_memory
      else
     (case store capacity [] (write_uint16_be (of_nat (length prefixes))) of
        Inl e \<Rightarrow> Inl e
      | Inr binary_data \<Rightarrow>
     (case write_prefixes capacity prefixes binary_data of
        Inl e \<Rightarrow> Inl e
      | Inr binary_data \<Rightarrow>
     (case store capacity binary_data (write_uint32_be (of_nat (length files))) of
        Inl e \<Rightarrow> Inl e
      | Inr binary_data \<Rightarrow> write_files capacity files binary_data))))"

subsection \<open>The binary format, parsed (lines 769--855 of \<^verbatim>\<open>extract_archive\<close>)\<close>

text \<open>
  A read of \<open>n\<close> bytes at \<^verbatim>\<open>decompressed + offset\<close>. The code checks nothing; a read that
  leaves the buffer is undefined behaviour, which the model reports as \<open>Read_past_end\<close>.
\<close>

definition fetch :: "byte list \<Rightarrow> nat \<Rightarrow> nat \<Rightarrow> failure + byte list" where
  "fetch buf offset n =
     (if offset + n \<le> length buf then Inr (take n (drop offset buf)) else Inl Read_past_end)"

text \<open>
  Lines 777--785: the prefix table, \<open>n\<close> entries from \<open>offset\<close> on. An entry is the
  \<^verbatim>\<open>prefix_len\<close> bytes copied; the code reads it as a C string.
\<close>

fun read_prefixes :: "byte list \<Rightarrow> nat \<Rightarrow> nat \<Rightarrow> failure + (byte list list \<times> nat)" where
  "read_prefixes buf 0 offset = Inr ([], offset)"
| "read_prefixes buf (Suc n) offset =
     (case fetch buf offset 2 of
        Inl e \<Rightarrow> Inl e
      | Inr b \<Rightarrow>
          let prefix_len = unat (read_uint16_be b) in
          (case fetch buf (offset + 2) prefix_len of
             Inl e \<Rightarrow> Inl e
           | Inr p \<Rightarrow>
               (case read_prefixes buf n (offset + 2 + prefix_len) of
                  Inl e \<Rightarrow> Inl e
                | Inr (ps, offset') \<Rightarrow> Inr (p # ps, offset'))))"

text \<open>
  Lines 806--817: the expansion of a stored path (36 is \<^verbatim>\<open>'$'\<close>). The index is used as
  \<^verbatim>\<open>atoi\<close> returns it, without a check against the size of the table;
  \<^verbatim>\<open>snprintf\<close> cuts the result to \<open>MAX_PATH_LEN - 1\<close> bytes.
\<close>

definition expand_path :: "byte list list \<Rightarrow> byte list \<Rightarrow> failure + byte list" where
  "expand_path prefixes p =
     (if p \<noteq> [] \<and> hd p = 36 then
        (case strchr (tl p) 36 of
           Some end_ptr \<Rightarrow>
             (case atoi (tl p) of
                None \<Rightarrow> Inl Int_overflow
              | Some prefix_idx \<Rightarrow>
                  if 0 \<le> prefix_idx \<and> prefix_idx < int (length prefixes)
                  then Inr (take (MAX_PATH_LEN - 1)
                             (cstr (prefixes ! nat prefix_idx) @ tl end_ptr))
                  else Inl Prefix_index_out_of_range)
         | None \<Rightarrow> Inr p)
      else Inr p)"

text \<open>
  Lines 828--847: the name handed to \<^verbatim>\<open>fopen\<close>. \<^verbatim>\<open>snprintf\<close> builds
  \<^verbatim>\<open>output_directory/expanded_path\<close>, cut to \<open>MAX_PATH_LEN - 1\<close> bytes. The code then
  ends the string at its last slash, lets \<^verbatim>\<open>strtok\<close> split the directory part at \<^verbatim>\<open>"/"\<close>
  (which overwrites the slash after each token but the last with NUL), and restores
  the last slash only. So when the directory part has a slash after its first token,
  the string that \<^verbatim>\<open>fopen\<close> sees ends there.
\<close>

definition full_path_of :: "byte list \<Rightarrow> byte list \<Rightarrow> byte list" where
  "full_path_of output_directory expanded_path =
     take (MAX_PATH_LEN - 1) (output_directory @ [47] @ expanded_path)"

definition fopen_name :: "byte list \<Rightarrow> byte list" where
  "fopen_name full_path =
     (if 47 \<in> set full_path then
        let last_slash = length full_path - 1 - length (takeWhile (\<lambda>b. b \<noteq> 47) (rev full_path));
            dir = take last_slash full_path;
            start = length (takeWhile (\<lambda>b. b = 47) dir);
            rest = drop start dir
        in if 47 \<in> set rest
           then take (start + length (takeWhile (\<lambda>b. b \<noteq> 47) rest)) full_path
           else full_path
      else full_path)"

text \<open>
  What the code cannot know: the directory to extract into, and whether the \<open>i\<close>-th
  \<^verbatim>\<open>fopen(name, "wb")\<close> succeeds.
\<close>

record environment =
  output_directory :: "byte list"
  fopen_succeeds :: "nat \<Rightarrow> byte list \<Rightarrow> bool"

text \<open>
  What the loop does with one record. The first argument is the expanded path of the
  member. \<open>File_written p name c\<close>: \<^verbatim>\<open>fopen(name, "wb")\<close> succeeded and the bytes \<open>c\<close> were
  written to that file. \<open>File_not_opened p name\<close>: \<^verbatim>\<open>fopen(name, "wb")\<close> failed and nothing
  was written. \<open>Duplicate_skipped p\<close>: the record has the duplicate marker ("skip for
  now"); no file is opened and nothing is written.
\<close>

datatype extracted =
    File_written "byte list" "byte list" "byte list"
  | File_not_opened "byte list" "byte list"
  | Duplicate_skipped "byte list"

text \<open>
  Lines 797--854: one iteration of the file loop, for record \<open>i\<close> at \<open>offset\<close>. The
  \<^verbatim>\<open>memcpy\<close> into \<^verbatim>\<open>char path[MAX_PATH_LEN]\<close> and the NUL stored after it overrun the array when
  \<open>path_len \<ge> MAX_PATH_LEN\<close>; where the same \<^verbatim>\<open>memcpy\<close> also leaves the source buffer, the
  model reports the read. The content is read by \<^verbatim>\<open>fwrite\<close>, and only when the file was
  opened; the bytes of a duplicate's path are never read, the offset just moves on.
\<close>

definition read_file ::
  "environment \<Rightarrow> byte list \<Rightarrow> byte list list \<Rightarrow> nat \<Rightarrow> nat \<Rightarrow> failure + (extracted \<times> nat)" where
  "read_file env buf prefixes i offset =
     (case fetch buf offset 2 of
        Inl e \<Rightarrow> Inl e
      | Inr b \<Rightarrow>
          let path_len = unat (read_uint16_be b) in
          (case fetch buf (offset + 2) path_len of
             Inl e \<Rightarrow> Inl e
           | Inr raw \<Rightarrow>
               if path_len \<ge> MAX_PATH_LEN then Inl Path_buffer_overrun
               else
                 let offset = offset + 2 + path_len in
                 (case expand_path prefixes (cstr raw) of
                    Inl e \<Rightarrow> Inl e
                  | Inr expanded_path \<Rightarrow>
                      (case fetch buf offset 4 of
                         Inl e \<Rightarrow> Inl e
                       | Inr b \<Rightarrow>
                           let content_len = read_uint32_be b; offset = offset + 4 in
                           if content_len = 0xFFFFFFFF then
                             (case fetch buf offset 2 of
                                Inl e \<Rightarrow> Inl e
                              | Inr b \<Rightarrow>
                                  let dup_len = unat (read_uint16_be b) in
                                  Inr (Duplicate_skipped expanded_path, offset + 2 + dup_len))
                           else
                             let name = fopen_name (full_path_of (output_directory env)
                                                      expanded_path) in
                             if fopen_succeeds env i name then
                               (case fetch buf offset (unat content_len) of
                                  Inl e \<Rightarrow> Inl e
                                | Inr c \<Rightarrow>
                                    Inr (File_written expanded_path name c,
                                         offset + unat content_len))
                             else Inr (File_not_opened expanded_path name,
                                       offset + unat content_len)))))"

text \<open>
  Lines 796--855: the loop, \<open>n\<close> records from record \<open>i\<close> on. When a record fails, the
  files of the records before it have been written; the model keeps the failure only.
\<close>

fun read_files ::
  "environment \<Rightarrow> byte list \<Rightarrow> byte list list \<Rightarrow> nat \<Rightarrow> nat \<Rightarrow> nat \<Rightarrow> failure + extracted list" where
  "read_files env buf prefixes 0 i offset = Inr []"
| "read_files env buf prefixes (Suc n) i offset =
     (case read_file env buf prefixes i offset of
        Inl e \<Rightarrow> Inl e
      | Inr (x, offset') \<Rightarrow>
          (case read_files env buf prefixes n (Suc i) offset' of
             Inl e \<Rightarrow> Inl e
           | Inr xs \<Rightarrow> Inr (x # xs)))"

text \<open>
  Lines 769--855: the decompressed buffer parsed. The result is the prefix table and what
  was done with each record, in order.
\<close>

definition parse_decompressed ::
  "environment \<Rightarrow> byte list \<Rightarrow> failure + (byte list list \<times> extracted list)" where
  "parse_decompressed env decompressed =
     (case fetch decompressed 0 2 of
        Inl e \<Rightarrow> Inl e
      | Inr b \<Rightarrow>
          let num_prefixes = unat (read_uint16_be b) in
          (case read_prefixes decompressed num_prefixes 2 of
             Inl e \<Rightarrow> Inl e
           | Inr (prefixes, offset) \<Rightarrow>
               (case fetch decompressed offset 4 of
                  Inl e \<Rightarrow> Inl e
                | Inr b \<Rightarrow>
                    let num_files = unat (read_uint32_be b) in
                    (case read_files env decompressed prefixes num_files 0 (offset + 4) of
                       Inl e \<Rightarrow> Inl e
                     | Inr xs \<Rightarrow> Inr (prefixes, xs)))))"

subsection \<open>The archive file (lines 709--767 of \<^verbatim>\<open>extract_archive\<close>)\<close>

definition KUNDA_MAGIC :: "byte list" where
  "KUNDA_MAGIC = ascii ''KUNDA'' @ [0, 0, 0]"

definition FLAG_CHECKSUMMED :: byte where
  "FLAG_CHECKSUMMED = 0x02"

text \<open>
  liblzma is not part of the repository. The decoder is a parameter: given the memory
  from \<^verbatim>\<open>next_in\<close> on, \<^verbatim>\<open>avail_in\<close> and \<^verbatim>\<open>avail_out\<close>, it returns the output buffer
  as \<^verbatim>\<open>lzma_code\<close> left it when it answered \<^verbatim>\<open>LZMA_STREAM_END\<close>, and \<open>None\<close> for every
  other answer. The header is read at fixed offsets without a check of the file size;
  the stored digest is stepped over (\<^verbatim>\<open>offset += 32; // Skip checksum\<close>). Failing
  allocations are left out.
\<close>

type_synonym lzma_decoder = "byte list \<Rightarrow> nat \<Rightarrow> nat \<Rightarrow> byte list option"

definition extract_archive ::
  "lzma_decoder \<Rightarrow> environment \<Rightarrow> byte list \<Rightarrow> failure + (byte list list \<times> extracted list)" where
  "extract_archive lzma_code env archive_data =
     (case fetch archive_data 0 8 of
        Inl e \<Rightarrow> Inl e
      | Inr magic \<Rightarrow>
          if magic \<noteq> KUNDA_MAGIC then Inl Invalid_archive
          else
            (case fetch archive_data 10 1 of
               Inl e \<Rightarrow> Inl e
             | Inr fl \<Rightarrow>
            (case fetch archive_data 11 4 of
               Inl e \<Rightarrow> Inl e
             | Inr b1 \<Rightarrow>
            (case fetch archive_data 15 4 of
               Inl e \<Rightarrow> Inl e
             | Inr b2 \<Rightarrow>
                 let flags = hd fl;
                     original_size = read_uint32_be b1;
                     compressed_size = read_uint32_be b2;
                     offset = (if flags AND FLAG_CHECKSUMMED \<noteq> 0 then 19 + 32 else 19)
                 in (case lzma_code (drop offset archive_data) (unat compressed_size)
                            (unat original_size) of
                       None \<Rightarrow> Inl Decompression_failed
                     | Some decompressed \<Rightarrow> parse_decompressed env decompressed)))))"

subsection \<open>Auxiliary notions for the statements and proofs\<close>

text \<open>
  The bytes the writer produces when it gets its buffer and no store leaves it: the
  layout of one prefix, one file record and the whole container (lemma
  \<open>create_binary_format_eq\<close>).
\<close>

definition prefix_bytes :: "PathPrefix \<Rightarrow> byte list" where
  "prefix_bytes p = write_uint16_be (of_nat (length (prefix p))) @ prefix p"

definition file_bytes :: "FileEntry \<Rightarrow> byte list" where
  "file_bytes f =
     write_uint16_be (of_nat (length (path f))) @ path f @
     (if is_duplicate f
      then write_uint32_be 0xFFFFFFFF @ write_uint16_be (of_nat (length (duplicate_of f))) @
           duplicate_of f
      else write_uint32_be (of_nat (length (content f))) @ content f)"

definition container_bytes :: "PathPrefix list \<Rightarrow> FileEntry list \<Rightarrow> byte list" where
  "container_bytes ps fs =
     write_uint16_be (of_nat (length ps)) @ concat (map prefix_bytes ps) @
     write_uint32_be (of_nat (length fs)) @ concat (map file_bytes fs)"

text \<open>
  A stored path that the parser takes literally: it does not start with \<^verbatim>\<open>'$'\<close>, or it
  has no second \<^verbatim>\<open>'$'\<close>.
\<close>

definition plain_path :: "byte list \<Rightarrow> bool" where
  "plain_path p = (p = [] \<or> hd p \<noteq> 36 \<or> 36 \<notin> set (tl p))"

text \<open>
  An entry that the writer and the parser agree on: its path is a C string that the
  parser takes literally, and its length field is not the duplicate marker by accident.
\<close>

definition encodable_file :: "FileEntry \<Rightarrow> bool" where
  "encodable_file f =
     (c_string (path f) \<and> plain_path (path f) \<and>
      (if is_duplicate f then c_string (duplicate_of f)
       else length (content f) < 4294967295))"

text \<open>
  The name handed to \<^verbatim>\<open>fopen\<close> for entry \<open>f\<close>, and whether that \<^verbatim>\<open>fopen\<close>, for the \<open>i\<close>-th
  entry of the archive, succeeds.
\<close>

definition opened_name :: "environment \<Rightarrow> FileEntry \<Rightarrow> byte list" where
  "opened_name env f = fopen_name (full_path_of (output_directory env) (path f))"

definition file_opened :: "environment \<Rightarrow> nat \<times> FileEntry \<Rightarrow> bool" where
  "file_opened env x =
     (case x of (i, f) \<Rightarrow>
        fopen_succeeds env i (fopen_name (full_path_of (output_directory env) (path f))))"

text \<open>What the file loop does with the record of entry \<open>f\<close>, the \<open>i\<close>-th of the archive.\<close>

definition record_outcome :: "environment \<Rightarrow> nat \<times> FileEntry \<Rightarrow> extracted" where
  "record_outcome env x =
     (case x of (i, f) \<Rightarrow>
        if is_duplicate f then Duplicate_skipped (path f)
        else if file_opened env (i, f)
        then File_written (path f) (opened_name env f) (content f)
        else File_not_opened (path f) (opened_name env f))"

text \<open>
  The bytes at the end of the record of entry \<open>f\<close> that the file loop steps over without
  reading them: the path of the original of a duplicate, and the content of a file that
  could not be opened. \<open>unread_tail env i fs\<close> is that number for the last of the entries
  \<open>fs\<close>, which are the \<open>i\<close>-th and following of the archive.
\<close>

definition skipped_bytes :: "environment \<Rightarrow> nat \<times> FileEntry \<Rightarrow> nat" where
  "skipped_bytes env x =
     (case x of (i, f) \<Rightarrow>
        if is_duplicate f then length (duplicate_of f)
        else if file_opened env (i, f) then 0
        else length (content f))"

fun unread_tail :: "environment \<Rightarrow> nat \<Rightarrow> FileEntry list \<Rightarrow> nat" where
  "unread_tail env i [] = 0"
| "unread_tail env i [f] = skipped_bytes env (i, f)"
| "unread_tail env i (f # g # fs) = unread_tail env (Suc i) (g # fs)"

text \<open>The number that a string of decimal digits denotes.\<close>

definition decimal_value :: "byte list \<Rightarrow> nat" where
  "decimal_value ds = foldl (\<lambda>a c. a * 10 + (unat c - 48)) 0 ds"

text \<open>Auxiliary notions for the proofs about the sort.\<close>

definition plen :: "PathPrefix \<Rightarrow> nat" where
  "plen e = length (prefix e)"

definition settled :: "nat \<Rightarrow> PathPrefix list \<Rightarrow> bool" where
  "settled m ps = (\<forall>a<m. \<forall>b. a < b \<and> b < length ps \<longrightarrow> plen (ps ! b) \<le> plen (ps ! a))"

subsection \<open>Example data\<close>

text \<open>
  Archives for the concrete instances below. \<open>add_files\<close> adds files to an empty archive
  one by one, as \<^verbatim>\<open>scan_directory\<close> does. In \<open>example_env\<close> the archive is extracted into
  the directory \<^verbatim>\<open>extracted\<close>, and an \<^verbatim>\<open>fopen\<close> succeeds unless its name is that of the
  directory itself; in \<open>every_fopen_succeeds\<close> it always succeeds. \<open>stored_decoder\<close>
  stands in for a decoder: it accepts its input as the decompressed data. In the
  examples every \<^verbatim>\<open>malloc\<close> succeeds.
\<close>

definition add_files :: "(string \<times> string) list \<Rightarrow> FileEntry list" where
  "add_files xs = fold (\<lambda>(p, c) files. archive_add_file files (ascii p) (ascii c)) xs []"

definition example_env :: environment where
  "example_env =
     \<lparr>output_directory = ascii ''extracted'',
      fopen_succeeds = (\<lambda>i name. name \<noteq> ascii ''extracted'')\<rparr>"


definition example_prefixes :: "PathPrefix list" where
  "example_prefixes = [\<lparr>prefix = ascii ''d/'', count = 3\<rparr>]"

definition example_files :: "FileEntry list" where
  "example_files = add_files [(''f1'', ''x''), (''f2'', '''')]"

definition example_container :: "byte list" where
  "example_container =
     [0, 1, 0, 2, 100, 47, 0, 0, 0, 2, 0, 2, 102, 49, 0, 0, 0, 1, 120, 0, 2, 102, 50, 0, 0, 0, 0]"

definition scenario_files :: "FileEntry list" where
  "scenario_files =
     add_files [(''a/b/f1'', ''x''), (''a/b/f2'', []), (''a/c/f3'', ''y''), (''a/b/f4'', ''x'')]"




definition duplicate_files :: "FileEntry list" where
  "duplicate_files =
     [\<lparr>path = ascii ''a'', content = ascii ''x'', is_duplicate = False, duplicate_of = []\<rparr>,
      \<lparr>path = ascii ''b'', content = [], is_duplicate = True, duplicate_of = ascii ''a''\<rparr>]"

definition duplicate_container :: "byte list" where
  "duplicate_container =
     [0, 0, 0, 0, 0, 2, 0, 1, 97, 0, 0, 0, 1, 120, 0, 1, 98, 255, 255, 255, 255, 0, 1, 97]"

definition nested_files :: "FileEntry list" where
  "nested_files = add_files [(''d/a'', ''1'')]"

definition nested_container :: "byte list" where
  "nested_container = [0, 0, 0, 0, 0, 1, 0, 3, 100, 47, 97, 0, 0, 0, 1, 49]"

definition stored_decoder :: lzma_decoder where
  "stored_decoder next_in avail_in avail_out =
     (if avail_in = avail_out \<and> avail_in \<le> length next_in then Some (take avail_in next_in)
      else None)"

definition example_header :: "byte list" where
  "example_header = KUNDA_MAGIC @ [2, 3, 6] @ write_uint32_be 14 @ write_uint32_be 14"

definition example_payload :: "byte list" where
  "example_payload = [0, 0, 0, 0, 0, 1, 0, 1, 97, 0, 0, 0, 1, 120]"

section \<open>Theorems\<close>

subsection \<open>Big-endian integers\<close>

lemma and_0xFF_take_bit: "(w :: 'a::len word) AND 0xFF = take_bit 8 w"
proof -
  have "(0xFF :: 'a word) = mask 8"
    by (simp add: mask_eq_exp_minus_1)
  then show ?thesis
    by (simp add: take_bit_eq_mask)
qed

lemma read_write_uint16_be: "read_uint16_be (write_uint16_be v) = v"
proof (rule bit_word_eqI)
  fix n assume "n < LENGTH(16)"
  then show "bit (read_uint16_be (write_uint16_be v)) n = bit v n"
    unfolding read_uint16_be_def write_uint16_be_def and_0xFF_take_bit
    by (cases "n < 8"; auto simp add: bit_simps)
qed

lemma read_write_uint32_be: "read_uint32_be (write_uint32_be v) = v"
proof (rule bit_word_eqI)
  fix n assume "n < LENGTH(32)"
  then show "bit (read_uint32_be (write_uint32_be v)) n = bit v n"
    unfolding read_uint32_be_def write_uint32_be_def and_0xFF_take_bit
    by (cases "n < 8"; cases "n < 16"; cases "n < 24"; auto simp add: bit_simps)
qed

text \<open>
  Claim C10. The big-endian codec round-trips: reading back the two bytes written for a
  16-bit value gives the value, and reading back the four bytes written for a 32-bit
  value gives the value.
\<close>

theorem uint_be_roundtrip:
  "read_uint16_be (write_uint16_be v) = v \<and> read_uint32_be (write_uint32_be w) = w"
  by (simp add: read_write_uint16_be read_write_uint32_be)

subsection \<open>Dictionary size\<close>

lemma round_up_loop_256MiB: "round_up_loop 1 268435456 = Some 268435456"
  by (simp add: round_up_loop.simps)

text \<open>
  Claim C9. \<^verbatim>\<open>get_optimal_dict_size\<close> returns: the rounding loop terminates, and the
  value returned is exactly 256 MiB (268435456 bytes), the fixed start value rounded down
  to a power of two and clamped to the range from 64 MiB to 1536 MiB.
\<close>

theorem get_optimal_dict_size_256MiB: "get_optimal_dict_size = Some 268435456"
  by (simp add: get_optimal_dict_size_def round_up_loop_256MiB)

subsection \<open>Preset resolution\<close>

text \<open>
  Claim C8, the code at the preset \<^verbatim>\<open>"ultrax"\<close>. The chain of comparisons takes its last
  branch (level 3, 64 MiB), since the string is neither \<^verbatim>\<open>"ultra"\<close> nor starts with
  \<^verbatim>\<open>"ultra-"\<close>; the encoder is chosen by the first five characters only, so it is the
  filter-chain encoder with the explicit parameters, not the leveled one.
\<close>

theorem preset_ultrax_uses_stream_encoder:
  "compress_lzma_ultra_setup (ascii ''ultrax'') =
     Inr \<lparr>preset_level = 3, dict_size_chosen = 67108864,
          encoder_used =
            Stream_encoder
              \<lparr>from_preset = 0x80000003, dict_size = 67108864, lc = 3, lp = 0, pb = 2,
               depth = 273, mf = MF_BT4\<rparr> CHECK_CRC64\<rparr>"
  by (simp add: compress_lzma_ultra_setup_def choose_level_dict_def ascii_def
      LZMA_PRESET_EXTREME_def)

lemma preset_other_uses_easy_encoder:
  assumes "take 5 preset \<noteq> ascii ''ultra''"
    and "preset \<noteq> ascii ''max''" and "preset \<noteq> ascii ''balanced''"
  shows "compress_lzma_ultra_setup preset =
     Inr \<lparr>preset_level = 3, dict_size_chosen = 64 * 1024 * 1024,
          encoder_used = Easy_encoder (3 OR LZMA_PRESET_EXTREME) CHECK_CRC64\<rparr>"
proof -
  have "preset \<noteq> ascii ''ultra''"
    using assms(1) by (auto simp add: ascii_def)
  moreover have "take 6 preset \<noteq> ascii ''ultra-''"
  proof
    assume "take 6 preset = ascii ''ultra-''"
    then have "take 5 (take 6 preset) = take 5 (ascii ''ultra-'')"
      by simp
    then show False
      using assms(1) by (simp add: ascii_def)
  qed
  ultimately show ?thesis
    using assms by (simp add: compress_lzma_ultra_setup_def choose_level_dict_def)
qed

subsection \<open>Path prefixes\<close>

lemma filter_fold_inv:
  "m \<le> length prefixes \<Longrightarrow> fold filter_step [0..<m] (prefixes, 0) = (ps, fc) \<Longrightarrow>
   fc \<le> m \<and> length ps = length prefixes \<and> (\<forall>k<fc. 3 \<le> count (ps ! k))"
proof (induction m arbitrary: ps fc)
  case 0
  then show ?case by simp
next
  case (Suc m)
  obtain ps0 fc0 where st: "fold filter_step [0..<m] (prefixes, 0) = (ps0, fc0)"
    by (cases "fold filter_step [0..<m] (prefixes, 0)") auto
  with Suc.IH [of ps0 fc0] Suc.prems have inv: "fc0 \<le> m" "length ps0 = length prefixes"
      "\<forall>k<fc0. 3 \<le> count (ps0 ! k)"
    by auto
  from Suc.prems st have step: "filter_step m (ps0, fc0) = (ps, fc)"
    by simp
  show ?case
  proof (cases "3 \<le> count (ps0 ! m)")
    case True
    with step have fc: "fc = fc0 + 1"
      and ps: "ps = (if m \<noteq> fc0 then ps0[fc0 := ps0 ! m] else ps0)"
      by (auto simp add: filter_step_def)
    have "3 \<le> count (ps ! k)" if "k < fc" for k
    proof (cases "k = fc0")
      case True
      with ps inv Suc.prems \<open>3 \<le> count (ps0 ! m)\<close> show ?thesis
        by (cases "m = fc0") auto
    next
      case False
      with that fc have "k < fc0" by simp
      with ps inv False show ?thesis by auto
    qed
    with fc ps inv show ?thesis by auto
  next
    case False
    with step have "fc = fc0" "ps = ps0"
      by (auto simp add: filter_step_def)
    with inv show ?thesis by auto
  qed
qed

lemma filter_prefixes_count: "e \<in> set (filter_prefixes prefixes) \<Longrightarrow> 3 \<le> count e"
proof -
  assume e: "e \<in> set (filter_prefixes prefixes)"
  obtain ps fc where st: "fold filter_step [0..<length prefixes] (prefixes, 0) = (ps, fc)"
    by (cases "fold filter_step [0..<length prefixes] (prefixes, 0)") auto
  from filter_fold_inv [OF le_refl st]
  have inv: "fc \<le> length prefixes" "length ps = length prefixes" "\<forall>k<fc. 3 \<le> count (ps ! k)"
    by auto
  from e st have "e \<in> set (take fc ps)"
    by (simp add: filter_prefixes_def)
  then obtain k where "k < fc" "k < length ps" "e = ps ! k"
    by (auto simp add: in_set_conv_nth)
  with inv show ?thesis by auto
qed


lemma inner_inv:
  "i < length ps \<Longrightarrow> k \<le> length ps \<Longrightarrow> i < k \<Longrightarrow> settled i ps \<Longrightarrow>
   (let qs = fold (sort_step i) [i + 1..<k] ps in
    length qs = length ps \<and> set qs = set ps \<and> settled i qs \<and>
    (\<forall>b. i < b \<and> b < k \<longrightarrow> plen (qs ! b) \<le> plen (qs ! i)))"
proof (induction k)
  case 0
  then show ?case by simp
next
  case (Suc k)
  show ?case
  proof (cases "i = k")
    case True
    with Suc.prems show ?thesis by simp
  next
    case False
    with Suc.prems have ik: "i < k" "k < length ps" by auto
    define qs where "qs = fold (sort_step i) [i + 1..<k] ps"
    from Suc.IH Suc.prems ik have inv: "length qs = length ps" "set qs = set ps" "settled i qs"
      "\<forall>b. i < b \<and> b < k \<longrightarrow> plen (qs ! b) \<le> plen (qs ! i)"
      by (auto simp add: qs_def Let_def)
    have fold_eq: "fold (sort_step i) [i + 1..<Suc k] ps = sort_step i k qs"
      using ik by (simp add: qs_def)
    show ?thesis
    proof (cases "plen (qs ! k) > plen (qs ! i)")
      case True
      then have rs: "sort_step i k qs = qs[i := qs ! k, k := qs ! i]"
        by (simp add: sort_step_def plen_def)
      define rs where "rs = qs[i := qs ! k, k := qs ! i]"
      have len: "length rs = length ps" using inv by (simp add: rs_def)
      have st: "set rs = set ps" using inv ik Suc.prems by (simp add: rs_def set_swap)
      have nth: "rs ! b = (if b = k then qs ! i else if b = i then qs ! k else qs ! b)"
        if "b < length ps" for b
        using that inv ik by (auto simp add: rs_def nth_list_update)
      have "settled i rs"
        unfolding settled_def
      proof (intro allI impI)
        fix a b assume a: "a < i" and b: "a < b \<and> b < length rs"
        from a ik Suc.prems have "a < length ps" "a \<noteq> i" "a \<noteq> k" by auto
        with nth have ra: "rs ! a = qs ! a" by simp
        from b len have bl: "b < length ps" by simp
        from inv(3) a ik inv(1) Suc.prems have "plen (qs ! i) \<le> plen (qs ! a)" "plen (qs ! k) \<le> plen (qs ! a)"
          by (auto simp add: settled_def)
        moreover from inv(3) a b len inv(1) have "plen (qs ! b) \<le> plen (qs ! a)"
          by (auto simp add: settled_def)
        ultimately show "plen (rs ! b) \<le> plen (rs ! a)"
          using nth [OF bl] ra by auto
      qed
      moreover have "plen (rs ! b) \<le> plen (rs ! i)" if "i < b \<and> b < Suc k" for b
      proof -
        from that ik have bl: "b < length ps" "i < length ps" by auto
        have ri: "rs ! i = qs ! k" using nth [OF bl(2)] ik by simp
        show ?thesis
        proof (cases "b = k")
          case True
          with nth [OF bl(1)] ri \<open>plen (qs ! k) > plen (qs ! i)\<close> show ?thesis by simp
        next
          case False
          with that have "i < b \<and> b < k" by simp
          with inv(4) have "plen (qs ! b) \<le> plen (qs ! i)" by simp
          with nth [OF bl(1)] False that ri \<open>plen (qs ! k) > plen (qs ! i)\<close> show ?thesis by simp
        qed
      qed
      ultimately show ?thesis
        unfolding Let_def fold_eq rs rs_def [symmetric] using len st by simp
    next
      case False
      then have rs: "sort_step i k qs = qs"
        by (simp add: sort_step_def plen_def)
      have "plen (qs ! b) \<le> plen (qs ! i)" if "i < b \<and> b < Suc k" for b
        using that inv(4) False by (cases "b = k") auto
      with inv show ?thesis
        unfolding Let_def fold_eq rs by simp
    qed
  qed
qed

lemma outer_inv:
  "m \<le> length ps \<Longrightarrow>
   (let qs = fold (\<lambda>i. fold (sort_step i) [i + 1..<length ps]) [0..<m] ps in
    length qs = length ps \<and> set qs = set ps \<and> settled m qs)"
proof (induction m)
  case 0
  then show ?case by (simp add: settled_def)
next
  case (Suc m)
  define qs where "qs = fold (\<lambda>i. fold (sort_step i) [i + 1..<length ps]) [0..<m] ps"
  from Suc have inv: "length qs = length ps" "set qs = set ps" "settled m qs"
    by (auto simp add: qs_def Let_def)
  define rs where "rs = fold (sort_step m) [m + 1..<length ps] qs"
  have fold_eq: "fold (\<lambda>i. fold (sort_step i) [i + 1..<length ps]) [0..<Suc m] ps = rs"
    by (simp add: qs_def rs_def)
  from Suc.prems inv have "m < length qs" "length ps \<le> length qs" "m < length ps" by auto
  with inner_inv [of m qs "length ps"] inv
  have r: "length rs = length qs" "set rs = set qs" "settled m rs"
    "\<forall>b. m < b \<and> b < length ps \<longrightarrow> plen (rs ! b) \<le> plen (rs ! m)"
    by (auto simp add: rs_def Let_def)
  have "settled (Suc m) rs"
    unfolding settled_def
  proof (intro allI impI)
    fix a b assume "a < Suc m" "a < b \<and> b < length rs"
    with r inv show "plen (rs ! b) \<le> plen (rs ! a)"
      by (cases "a = m") (auto simp add: settled_def)
  qed
  with r inv show ?case
    unfolding Let_def fold_eq by simp
qed

lemma sort_prefixes_sorted:
  "sorted_wrt (\<lambda>a b. length (prefix b) \<le> length (prefix a)) (sort_prefixes ps)"
proof -
  from outer_inv [of "length ps" ps]
  have "length (sort_prefixes ps) = length ps" "settled (length ps) (sort_prefixes ps)"
    by (auto simp add: sort_prefixes_def Let_def)
  then show ?thesis
    by (auto simp add: sorted_wrt_iff_nth_less settled_def plen_def)
qed

lemma set_sort_prefixes: "set (sort_prefixes ps) = set ps"
  using outer_inv [of "length ps" ps] by (auto simp add: sort_prefixes_def Let_def)

text \<open>
  Claim C4. For every list of files, every entry of the prefix table that
  \<^verbatim>\<open>compress_paths\<close> returns has a count of at least 3, and the entries are in
  non-increasing order of the byte length of their prefix.
\<close>

theorem compress_paths_invariant:
  "list_all (\<lambda>e. 3 \<le> count e) (compress_paths files) \<and>
   sorted_wrt (\<lambda>a b. length (prefix b) \<le> length (prefix a)) (compress_paths files)"
  by (auto simp add: compress_paths_def list_all_iff set_sort_prefixes sort_prefixes_sorted
      dest: filter_prefixes_count)

text \<open>
  The table for the four files \<^verbatim>\<open>a/b/f1\<close>, \<^verbatim>\<open>a/b/f2\<close>, \<^verbatim>\<open>a/c/f3\<close>, \<^verbatim>\<open>a/b/f4\<close>: the prefix
  \<^verbatim>\<open>a/b/\<close> with count 3 before \<^verbatim>\<open>a/\<close> with count 4; \<^verbatim>\<open>a/c/\<close> (count 1) is dropped.
\<close>

theorem compress_paths_invariant_witness:
  "compress_paths scenario_files =
     [\<lparr>prefix = ascii ''a/b/'', count = 3\<rparr>, \<lparr>prefix = ascii ''a/'', count = 4\<rparr>] \<and>
   list_all (\<lambda>e. 3 \<le> count e) (compress_paths scenario_files) \<and>
   sorted_wrt (\<lambda>a b. length (prefix b) \<le> length (prefix a)) (compress_paths scenario_files)"
proof -
  have "compress_paths scenario_files =
     [\<lparr>prefix = ascii ''a/b/'', count = 3\<rparr>, \<lparr>prefix = ascii ''a/'', count = 4\<rparr>]"
    by (simp add: compress_paths_def scenario_files_def add_files_def archive_add_file_def
        ascii_def count_prefix_def MAX_PREFIXES_def MAX_PATH_LEN_def
        filter_prefixes_def filter_step_def sort_prefixes_def sort_step_def upt_rec)
  with compress_paths_invariant [of scenario_files] show ?thesis
    by simp
qed

subsection \<open>The binary format: writing\<close>

lemma length_write_uint16_be [simp]: "length (write_uint16_be v) = 2"
  by (simp add: write_uint16_be_def)

lemma length_write_uint32_be [simp]: "length (write_uint32_be v) = 4"
  by (simp add: write_uint32_be_def)

lemma write_prefixes_eq:
  "length out \<le> cap \<Longrightarrow> write_prefixes cap ps out =
     (if length out + length (concat (map prefix_bytes ps)) \<le> cap
      then Inr (out @ concat (map prefix_bytes ps)) else Inl Write_past_end)"
  by (induction ps arbitrary: out) (auto simp add: store_def prefix_bytes_def)

lemma write_file_eq:
  "write_file cap f out =
     (if length out + length (file_bytes f) \<le> cap
      then Inr (out @ file_bytes f) else Inl Write_past_end)"
  by (auto simp add: write_file_def store_def file_bytes_def)

lemma write_files_eq:
  "length out \<le> cap \<Longrightarrow> write_files cap fs out =
     (if length out + length (concat (map file_bytes fs)) \<le> cap
      then Inr (out @ concat (map file_bytes fs)) else Inl Write_past_end)"
  by (induction fs arbitrary: out) (auto simp add: write_file_eq)

lemma create_binary_format_eq:
  "create_binary_format m ps fs =
     (if \<not> m (binary_capacity fs) then Inl Out_of_memory
      else if length (container_bytes ps fs) \<le> binary_capacity fs
      then Inr (container_bytes ps fs) else Inl Write_past_end)"
  by (auto simp add: create_binary_format_def container_bytes_def store_def
      write_prefixes_eq write_files_eq Let_def)

lemma create_binary_format_Inr:
  "create_binary_format m ps fs = Inr bs \<Longrightarrow> bs = container_bytes ps fs"
  by (simp add: create_binary_format_eq split: if_splits)


subsection \<open>Reading\<close>

lemma fetch_shift: "fetch (pre @ t) (length pre + a) n = fetch t a n"
  by (simp add: fetch_def)

lemma fetch_short: "length buf < offset + n \<Longrightarrow> fetch buf offset n = Inl Read_past_end"
  by (simp add: fetch_def)

lemma unat_of_nat16: "n < 65536 \<Longrightarrow> unat (of_nat n :: 16 word) = n"
  by (simp add: unat_of_nat)

lemma unat_of_nat32: "n < 4294967296 \<Longrightarrow> unat (of_nat n :: 32 word) = n"
  by (simp add: unat_of_nat)

lemma of_nat32_sentinel: "n < 4294967295 \<Longrightarrow> (of_nat n :: 32 word) \<noteq> 0xFFFFFFFF"
proof
  assume n: "n < 4294967295" and "(of_nat n :: 32 word) = 0xFFFFFFFF"
  then have "unat (of_nat n :: 32 word) = unat (0xFFFFFFFF :: 32 word)"
    by simp
  with n show False
    by (simp add: unat_of_nat32)
qed

lemma fetch_shift_le:
  "length pre \<le> offset \<Longrightarrow> fetch (pre @ t) offset n = fetch t (offset - length pre) n"
  by (auto simp add: fetch_def)

lemma cstr_id: "0 \<notin> set p \<Longrightarrow> cstr p = p"
  by (auto simp add: cstr_def takeWhile_eq_all_conv)

lemma expand_path_plain: "plain_path p \<Longrightarrow> expand_path prefixes p = Inr p"
  by (auto simp add: plain_path_def expand_path_def strchr_def)

lemma read_prefixes_shift:
  "read_prefixes (pre @ t) n (length pre + a) =
     (case read_prefixes t n a of Inl e \<Rightarrow> Inl e | Inr (ps, off) \<Rightarrow> Inr (ps, length pre + off))"
proof (induction n arbitrary: a)
  case 0
  then show ?case by simp
next
  case (Suc n)
  have a3: "length pre + a + 2 + k = length pre + (a + 2 + k)" for k by simp
  show ?case
  proof (cases "fetch t a 2")
    case (Inl e)
    then show ?thesis by (simp add: fetch_shift)
  next
    case b: (Inr b)
    show ?thesis
    proof (cases "fetch t (a + 2) (unat (read_uint16_be b))")
      case (Inl e)
      with b show ?thesis by (simp add: fetch_shift fetch_shift_le)
    next
      case (Inr p)
      with b show ?thesis
        by (simp add: fetch_shift fetch_shift_le a3 Suc.IH del: add_Suc_right add_2_eq_Suc'
            split: sum.splits prod.splits)
    qed
  qed
qed

lemma read_file_shift:
  "read_file env (pre @ t) prefixes i (length pre + a) =
     (case read_file env t prefixes i a of Inl e \<Rightarrow> Inl e | Inr (x, off) \<Rightarrow> Inr (x, length pre + off))"
  unfolding read_file_def Let_def
  by (simp add: fetch_shift_le split: sum.split)

lemma read_files_shift:
  "read_files env (pre @ t) prefixes n i (length pre + a) = read_files env t prefixes n i a"
proof (induction n arbitrary: i a)
  case 0
  then show ?case by simp
next
  case (Suc n)
  show ?case
    by (simp add: read_file_shift Suc.IH split: sum.splits prod.splits)
qed


lemma read_file_complete:
  assumes "c_string (path f)" and "plain_path (path f)"
    and "is_duplicate f \<longrightarrow> length (duplicate_of f) < 65536"
    and "\<not> is_duplicate f \<longrightarrow> length (content f) < 4294967295"
  shows "read_file env (file_bytes f @ suf) prefixes i 0 =
           Inr (record_outcome env (i, f), length (file_bytes f))"
proof -
  from assms(1) have len: "length (path f) < 65536" "length (path f) < MAX_PATH_LEN"
    and nul: "0 \<notin> set (path f)"
    by (simp_all add: c_string_def MAX_PATH_LEN_def)
  have ex: "expand_path prefixes (cstr (path f)) = Inr (path f)"
    using nul assms(2) by (simp add: cstr_id expand_path_plain)
  show ?thesis
  proof (cases "is_duplicate f")
    case True
    with assms(3) have d: "length (duplicate_of f) < 65536" by simp
    show ?thesis
      using True len d ex
      by (simp add: read_file_def file_bytes_def fetch_def read_write_uint16_be
          read_write_uint32_be unat_of_nat16 record_outcome_def Let_def)
  next
    case False
    with assms(4) have c: "length (content f) < 4294967295" by simp
    then have c': "length (content f) < 4294967296" by simp
    show ?thesis
      using False len c ex
      by (simp add: read_file_def file_bytes_def fetch_def read_write_uint16_be
          read_write_uint32_be unat_of_nat16 unat_of_nat32 [OF c'] of_nat32_sentinel
          record_outcome_def file_opened_def opened_name_def Let_def)
  qed
qed


lemma read_files_complete:
  assumes "list_all encodable_file fs"
  shows "read_files env (concat (map file_bytes fs) @ suf) prefixes (length fs) i 0 =
           Inr (map (record_outcome env) (enumerate i fs))"
  using assms
proof (induction fs arbitrary: i suf)
  case Nil
  then show ?case by simp
next
  case (Cons f fs)
  from Cons.prems have f: "encodable_file f" and fs: "list_all encodable_file fs"
    by simp_all
  have first: "read_file env (file_bytes f @ concat (map file_bytes fs) @ suf) prefixes i 0 =
      Inr (record_outcome env (i, f), length (file_bytes f))"
    using f by (intro read_file_complete)
      (auto simp add: encodable_file_def c_string_def MAX_PATH_LEN_def)
  have rest: "read_files env (file_bytes f @ concat (map file_bytes fs) @ suf) prefixes
      (length fs) (Suc i) (length (file_bytes f)) =
      Inr (map (record_outcome env) (enumerate (Suc i) fs))"
    using read_files_shift [of env "file_bytes f" _ prefixes "length fs" "Suc i" 0]
      Cons.IH [OF fs] by simp
  show ?case
    by (simp add: first rest)
qed

lemma read_prefixes_complete:
  assumes "list_all (\<lambda>p. length (prefix p) < 65536) ps"
  shows "read_prefixes (concat (map prefix_bytes ps) @ suf) (length ps) 0 =
           Inr (map prefix ps, length (concat (map prefix_bytes ps)))"
  using assms
proof (induction ps arbitrary: suf)
  case Nil
  then show ?case by simp
next
  case (Cons p ps)
  from Cons.prems have p: "length (prefix p) < 65536"
    and ps: "list_all (\<lambda>p. length (prefix p) < 65536) ps"
    by simp_all
  have rest: "read_prefixes (prefix_bytes p @ concat (map prefix_bytes ps) @ suf) (length ps)
      (length (prefix_bytes p)) =
      Inr (map prefix ps, length (prefix_bytes p) + length (concat (map prefix_bytes ps)))"
    using read_prefixes_shift [of "prefix_bytes p" _ "length ps" 0] Cons.IH [OF ps]
    by simp
  have len: "length (prefix_bytes p) = 2 + length (prefix p)"
    by (simp add: prefix_bytes_def)
  have f1: "fetch (prefix_bytes p @ concat (map prefix_bytes ps) @ suf) 0 2 =
      Inr (write_uint16_be (of_nat (length (prefix p))))"
    by (simp add: fetch_def prefix_bytes_def)
  have f2: "fetch (prefix_bytes p @ concat (map prefix_bytes ps) @ suf) 2 (length (prefix p)) =
      Inr (prefix p)"
    by (simp add: fetch_def prefix_bytes_def)
  show ?case
    using rest p f1 f2
    by (simp add: read_write_uint16_be unat_of_nat16 len del: add_2_eq_Suc add_2_eq_Suc')
qed

lemma parse_complete:
  assumes "length ps < 65536" and "list_all (\<lambda>p. length (prefix p) < 65536) ps"
    and "length fs < 4294967296" and "list_all encodable_file fs"
  shows "parse_decompressed env (container_bytes ps fs) =
           Inr (map prefix ps, map (record_outcome env) (enumerate 0 fs))"
proof -
  let ?P = "concat (map prefix_bytes ps)"
  let ?F = "concat (map file_bytes fs)"
  let ?h1 = "write_uint16_be (of_nat (length ps))"
  let ?h2 = "write_uint32_be (of_nat (length fs))"
  have f1: "fetch (container_bytes ps fs) 0 2 = Inr ?h1"
    by (simp add: fetch_def container_bytes_def)
  have rp: "read_prefixes (container_bytes ps fs) (length ps) 2 = Inr (map prefix ps, 2 + length ?P)"
    using read_prefixes_shift [of ?h1 "?P @ ?h2 @ ?F" "length ps" 0]
      read_prefixes_complete [OF assms(2), of "?h2 @ ?F"]
    by (simp add: container_bytes_def)
  have f2: "fetch (container_bytes ps fs) (2 + length ?P) 4 = Inr ?h2"
    by (simp add: fetch_def container_bytes_def)
  have "read_files env ((?h1 @ ?P @ ?h2) @ ?F @ []) (map prefix ps) (length fs) 0
          (length (?h1 @ ?P @ ?h2) + 0) =
        Inr (map (record_outcome env) (enumerate 0 fs))"
    unfolding read_files_shift using read_files_complete [OF assms(4), of env "[]"] by simp
  then have rf: "read_files env (container_bytes ps fs) (map prefix ps) (length fs) 0
      (2 + length ?P + 4) = Inr (map (record_outcome env) (enumerate 0 fs))"
    by (simp add: container_bytes_def add.commute add.left_commute)
  show ?thesis
    using assms(1,3) f1 rp f2 rf
    by (simp add: parse_decompressed_def read_write_uint16_be read_write_uint32_be
        unat_of_nat16 unat_of_nat32)
qed


subsection \<open>Truncated containers\<close>

lemma length_file_bytes:
  "length (file_bytes f) =
     (if is_duplicate f then 8 + length (path f) + length (duplicate_of f)
      else 6 + length (path f) + length (content f))"
  by (simp add: file_bytes_def)

lemma skipped_bytes_le: "skipped_bytes env (i, f) \<le> length (file_bytes f)"
  by (simp add: skipped_bytes_def length_file_bytes)

lemma unread_tail_le: "unread_tail env i fs \<le> length (concat (map file_bytes fs))"
proof (induction env i fs rule: unread_tail.induct)
  case (1 env i)
  then show ?case by simp
next
  case (2 env i f)
  then show ?case using skipped_bytes_le [of env i f] by simp
next
  case (3 env i f g fs)
  then show ?case by simp
qed

lemma read_files_past:
  "length buf < offset + 2 \<Longrightarrow> read_files env buf prefixes (Suc n) i offset = Inl Read_past_end"
  by (simp add: read_file_def fetch_def)

lemma read_file_truncated:
  assumes "c_string (path f)" and "plain_path (path f)"
    and "is_duplicate f \<longrightarrow> length (duplicate_of f) < 65536"
    and "\<not> is_duplicate f \<longrightarrow> length (content f) < 4294967295"
    and "k < length (file_bytes f)"
  shows "read_file env (take k (file_bytes f)) prefixes i 0 =
           (if k + skipped_bytes env (i, f) < length (file_bytes f) then Inl Read_past_end
            else Inr (record_outcome env (i, f), length (file_bytes f)))"
proof -
  from assms(1) have len: "length (path f) < 65536" "length (path f) < MAX_PATH_LEN"
    and nul: "0 \<notin> set (path f)"
    by (simp_all add: c_string_def MAX_PATH_LEN_def)
  have ex: "expand_path prefixes (cstr (path f)) = Inr (path f)"
    using nul assms(2) by (simp add: cstr_id expand_path_plain)
  show ?thesis
  proof (cases "is_duplicate f")
    case dup: True
    with assms(3) have d: "length (duplicate_of f) < 65536" by simp
    from assms(5) dup have k: "k < 8 + length (path f) + length (duplicate_of f)"
      by (simp add: length_file_bytes)
    consider "k < 2" | "2 \<le> k" "k < 2 + length (path f)"
      | "2 + length (path f) \<le> k" "k < 6 + length (path f)"
      | "6 + length (path f) \<le> k" "k < 8 + length (path f)"
      | "8 + length (path f) \<le> k"
      by linarith
    then show ?thesis
    proof cases
      case 1
      then show ?thesis
        using dup by (simp add: read_file_def fetch_def skipped_bytes_def length_file_bytes)
    next
      case 2
      then have "\<not> length (path f) \<le> k - 2"
        by linarith
      with 2 show ?thesis
        using len dup
        by (simp add: read_file_def file_bytes_def fetch_def read_write_uint16_be
            unat_of_nat16 skipped_bytes_def Let_def)
    next
      case 3
      then have "\<not> 4 + length (path f) \<le> k - 2"
        by linarith
      with 3 show ?thesis
        using len dup ex
        by (simp add: read_file_def file_bytes_def fetch_def read_write_uint16_be
            unat_of_nat16 skipped_bytes_def Let_def)
    next
      case 4
      then have "\<not> 6 + length (path f) \<le> k - 2"
        by linarith
      with 4 show ?thesis
        using len dup ex
        by (simp add: read_file_def file_bytes_def fetch_def read_write_uint16_be
            read_write_uint32_be unat_of_nat16 skipped_bytes_def Let_def)
    next
      case 5
      then have "6 + length (path f) \<le> k - 2"
        by linarith
      with 5 show ?thesis
        using len dup ex d k
        by (simp add: read_file_def file_bytes_def fetch_def read_write_uint16_be
            read_write_uint32_be unat_of_nat16 skipped_bytes_def record_outcome_def Let_def)
    qed
  next
    case nodup: False
    with assms(4) have c: "length (content f) < 4294967295" by simp
    then have c': "length (content f) < 4294967296" by simp
    from assms(5) nodup have k: "k < 6 + length (path f) + length (content f)"
      by (simp add: length_file_bytes)
    consider "k < 2" | "2 \<le> k" "k < 2 + length (path f)"
      | "2 + length (path f) \<le> k" "k < 6 + length (path f)"
      | "6 + length (path f) \<le> k"
      by linarith
    then show ?thesis
    proof cases
      case 1
      then show ?thesis
        using nodup by (simp add: read_file_def fetch_def skipped_bytes_def length_file_bytes)
    next
      case 2
      then have "\<not> length (path f) \<le> k - 2"
        by linarith
      with 2 show ?thesis
        using len nodup
        by (simp add: read_file_def file_bytes_def fetch_def read_write_uint16_be
            unat_of_nat16 skipped_bytes_def Let_def)
    next
      case 3
      then have "\<not> 4 + length (path f) \<le> k - 2"
        by linarith
      with 3 show ?thesis
        using len nodup ex
        by (simp add: read_file_def file_bytes_def fetch_def read_write_uint16_be
            unat_of_nat16 skipped_bytes_def Let_def)
    next
      case 4
      show ?thesis
      proof (cases "file_opened env (i, f)")
        case True
        from 4 k have "\<not> 4 + length (path f) + length (content f) \<le> k - 2"
          "\<not> length (content f) \<le> k - (6 + length (path f))"
          by linarith+
        with 4 True show ?thesis
          using len nodup c ex k
          by (simp add: read_file_def file_bytes_def fetch_def read_write_uint16_be
              read_write_uint32_be unat_of_nat16 unat_of_nat32 [OF c'] of_nat32_sentinel
              file_opened_def skipped_bytes_def Let_def)
      next
        case False
        from 4 have "4 + length (path f) \<le> k - 2"
          by linarith
        with 4 False show ?thesis
          using len nodup c ex k
          by (simp add: read_file_def file_bytes_def fetch_def read_write_uint16_be
              read_write_uint32_be unat_of_nat16 unat_of_nat32 [OF c'] of_nat32_sentinel
              file_opened_def opened_name_def skipped_bytes_def record_outcome_def Let_def)
      qed
    qed
  qed
qed

lemma read_files_truncated:
  assumes "list_all encodable_file fs" and "k < length (concat (map file_bytes fs))"
  shows "read_files env (take k (concat (map file_bytes fs))) prefixes (length fs) i 0 =
           (if k + unread_tail env i fs < length (concat (map file_bytes fs))
            then Inl Read_past_end
            else Inr (map (record_outcome env) (enumerate i fs)))"
  using assms
proof (induction fs arbitrary: i k)
  case Nil
  then show ?case by simp
next
  case (Cons f fs)
  from Cons.prems have f: "encodable_file f" and fs: "list_all encodable_file fs"
    by simp_all
  from f have fh: "c_string (path f)" "plain_path (path f)"
    "is_duplicate f \<longrightarrow> length (duplicate_of f) < 65536"
    "\<not> is_duplicate f \<longrightarrow> length (content f) < 4294967295"
    by (auto simp add: encodable_file_def c_string_def MAX_PATH_LEN_def)
  show ?case
  proof (cases "k < length (file_bytes f)")
    case True
    note first = read_file_truncated [OF fh True, of env prefixes i]
    from True have buf: "take k (concat (map file_bytes (f # fs))) = take k (file_bytes f)"
      by simp
    show ?thesis
    proof (cases fs)
      case Nil
      with first show ?thesis
        by simp
    next
      case (Cons g gs)
      have past: "read_files env (take k (file_bytes f)) prefixes (Suc (length gs)) (Suc i)
          (length (file_bytes f)) = Inl Read_past_end"
        using True by (intro read_files_past) simp
      have "k + unread_tail env (Suc i) (g # gs) < length (file_bytes f) +
          length (concat (map file_bytes (g # gs)))"
        using True unread_tail_le [of env "Suc i" "g # gs"] by linarith
      then show ?thesis
        unfolding buf using first past Cons by simp
    qed
  next
    case False
    define k' where "k' = k - length (file_bytes f)"
    define t where "t = take k' (concat (map file_bytes fs))"
    from False Cons.prems(2) have k': "k' < length (concat (map file_bytes fs))"
      by (simp add: k'_def)
    then obtain g gs where gs: "fs = g # gs"
      by (cases fs) auto
    from False have buf: "take k (concat (map file_bytes (f # fs))) = file_bytes f @ t"
      by (simp add: t_def k'_def)
    have first: "read_file env (file_bytes f @ t) prefixes i 0 =
        Inr (record_outcome env (i, f), length (file_bytes f))"
      using fh by (intro read_file_complete)
    have rest: "read_files env (file_bytes f @ t) prefixes (length fs) (Suc i)
        (length (file_bytes f)) =
        (if k' + unread_tail env (Suc i) fs < length (concat (map file_bytes fs))
         then Inl Read_past_end
         else Inr (map (record_outcome env) (enumerate (Suc i) fs)))"
      using read_files_shift [of env "file_bytes f" t prefixes "length fs" "Suc i" 0]
        Cons.IH [OF fs k', of "Suc i"] by (simp add: t_def)
    have cond: "k + unread_tail env i (f # fs) < length (concat (map file_bytes (f # fs))) \<longleftrightarrow>
        k' + unread_tail env (Suc i) fs < length (concat (map file_bytes fs))"
      using False by (auto simp add: k'_def gs)
    show ?thesis
      unfolding buf cond by (simp add: first rest)
  qed
qed

lemma read_prefixes_truncated:
  assumes "list_all (\<lambda>p. length (prefix p) < 65536) ps"
    and "k < length (concat (map prefix_bytes ps))"
  shows "read_prefixes (take k (concat (map prefix_bytes ps))) (length ps) 0 = Inl Read_past_end"
  using assms
proof (induction ps arbitrary: k)
  case Nil
  then show ?case by simp
next
  case (Cons p ps)
  from Cons.prems have p: "length (prefix p) < 65536"
    and ps: "list_all (\<lambda>p. length (prefix p) < 65536) ps"
    by simp_all
  have len: "length (prefix_bytes p) = 2 + length (prefix p)"
    by (simp add: prefix_bytes_def)
  show ?case
  proof (cases "k < length (prefix_bytes p)")
    case True
    then have buf: "take k (concat (map prefix_bytes (p # ps))) = take k (prefix_bytes p)"
      by simp
    show ?thesis
    proof (cases "k < 2")
      case True
      then show ?thesis
        unfolding buf by (simp add: fetch_def)
    next
      case False
      with True len have "\<not> length (prefix p) \<le> k - 2"
        by linarith
      with False True p len show ?thesis
        unfolding buf
        by (simp add: fetch_def prefix_bytes_def read_write_uint16_be unat_of_nat16 Let_def)
    qed
  next
    case False
    define k' where "k' = k - length (prefix_bytes p)"
    define t where "t = take k' (concat (map prefix_bytes ps))"
    from False Cons.prems(2) have k': "k' < length (concat (map prefix_bytes ps))"
      by (simp add: k'_def)
    from False have buf: "take k (concat (map prefix_bytes (p # ps))) = prefix_bytes p @ t"
      by (simp add: t_def k'_def)
    have rest: "read_prefixes (prefix_bytes p @ t) (length ps) (length (prefix_bytes p)) =
        Inl Read_past_end"
      using read_prefixes_shift [of "prefix_bytes p" t "length ps" 0] Cons.IH [OF ps k']
      by (simp add: t_def)
    have f1: "fetch (prefix_bytes p @ t) 0 2 = Inr (write_uint16_be (of_nat (length (prefix p))))"
      by (simp add: fetch_def prefix_bytes_def)
    have f2: "fetch (prefix_bytes p @ t) 2 (length (prefix p)) = Inr (prefix p)"
      by (simp add: fetch_def prefix_bytes_def)
    show ?thesis
      unfolding buf using rest p f1 f2
      by (simp add: read_write_uint16_be unat_of_nat16 len del: add_2_eq_Suc add_2_eq_Suc')
  qed
qed


lemma parse_truncated:
  assumes "length ps < 65536" and "list_all (\<lambda>p. length (prefix p) < 65536) ps"
    and "length fs < 4294967296" and "list_all encodable_file fs"
    and "n < length (container_bytes ps fs)"
  shows "parse_decompressed env (take n (container_bytes ps fs)) =
           (if n + unread_tail env 0 fs < length (container_bytes ps fs) then Inl Read_past_end
            else Inr (map prefix ps, map (record_outcome env) (enumerate 0 fs)))"
proof -
  let ?P = "concat (map prefix_bytes ps)"
  let ?F = "concat (map file_bytes fs)"
  let ?h1 = "write_uint16_be (of_nat (length ps))"
  let ?h2 = "write_uint32_be (of_nat (length fs))"
  have cb: "container_bytes ps fs = ?h1 @ ?P @ ?h2 @ ?F"
    by (simp add: container_bytes_def)
  have len: "length (container_bytes ps fs) = 6 + length ?P + length ?F"
    by (simp add: cb)
  from assms(5) have n: "n < 6 + length ?P + length ?F"
    by (simp add: cb)
  have tail: "unread_tail env 0 fs \<le> length ?F"
    by (rule unread_tail_le)
  consider "n < 2" | "2 \<le> n" "n < 2 + length ?P"
    | "2 + length ?P \<le> n" "n < 6 + length ?P" | "6 + length ?P \<le> n"
    by linarith
  then show ?thesis
  proof cases
    case 1
    then have "parse_decompressed env (take n (container_bytes ps fs)) = Inl Read_past_end"
      by (simp add: parse_decompressed_def fetch_def)
    moreover from 1 tail have "n + unread_tail env 0 fs < length (container_bytes ps fs)"
      unfolding len by linarith
    ultimately show ?thesis
      by simp
  next
    case 2
    define t where "t = take (n - 2) ?P"
    from 2 have buf: "take n (container_bytes ps fs) = ?h1 @ t"
      by (simp add: cb t_def)
    have f1: "fetch (?h1 @ t) 0 2 = Inr ?h1"
      by (simp add: fetch_def)
    from 2 have "n - 2 < length ?P" by linarith
    then have "read_prefixes t (length ps) 0 = Inl Read_past_end"
      unfolding t_def by (rule read_prefixes_truncated [OF assms(2)])
    then have rp: "read_prefixes (?h1 @ t) (length ps) 2 = Inl Read_past_end"
      using read_prefixes_shift [of ?h1 t "length ps" 0] by simp
    have "parse_decompressed env (take n (container_bytes ps fs)) = Inl Read_past_end"
      unfolding buf using assms(1) f1 rp
      by (simp add: parse_decompressed_def read_write_uint16_be unat_of_nat16)
    moreover from 2 tail have "n + unread_tail env 0 fs < length (container_bytes ps fs)"
      unfolding len by linarith
    ultimately show ?thesis
      by simp
  next
    case 3
    define t where "t = take (n - 2 - length ?P) ?h2"
    from 3 have buf: "take n (container_bytes ps fs) = ?h1 @ ?P @ t"
      by (simp add: cb t_def)
    have f1: "fetch (?h1 @ ?P @ t) 0 2 = Inr ?h1"
      by (simp add: fetch_def)
    have rp: "read_prefixes (?h1 @ ?P @ t) (length ps) 2 = Inr (map prefix ps, 2 + length ?P)"
      using read_prefixes_shift [of ?h1 "?P @ t" "length ps" 0]
        read_prefixes_complete [OF assms(2), of t]
      by simp
    from 3 have "length (?h1 @ ?P @ t) < 2 + length ?P + 4"
      by (simp add: t_def)
    then have f2: "fetch (?h1 @ ?P @ t) (2 + length ?P) 4 = Inl Read_past_end"
      by (rule fetch_short)
    have "parse_decompressed env (take n (container_bytes ps fs)) = Inl Read_past_end"
      unfolding buf using assms(1) f1 rp f2
      by (simp add: parse_decompressed_def read_write_uint16_be unat_of_nat16)
    moreover from 3 tail have "n + unread_tail env 0 fs < length (container_bytes ps fs)"
      unfolding len by linarith
    ultimately show ?thesis
      by simp
  next
    case 4
    define k where "k = n - 6 - length ?P"
    define t where "t = take k ?F"
    define r where "r = (if k + unread_tail env 0 fs < length ?F then Inl Read_past_end
        else Inr (map (record_outcome env) (enumerate 0 fs)))"
    from 4 have buf: "take n (container_bytes ps fs) = ?h1 @ ?P @ ?h2 @ t"
      by (simp add: cb t_def k_def)
    have f1: "fetch (?h1 @ ?P @ ?h2 @ t) 0 2 = Inr ?h1"
      by (simp add: fetch_def)
    have rp: "read_prefixes (?h1 @ ?P @ ?h2 @ t) (length ps) 2 =
        Inr (map prefix ps, 2 + length ?P)"
      using read_prefixes_shift [of ?h1 "?P @ ?h2 @ t" "length ps" 0]
        read_prefixes_complete [OF assms(2), of "?h2 @ t"]
      by simp
    have f2: "fetch (?h1 @ ?P @ ?h2 @ t) (2 + length ?P) 4 = Inr ?h2"
      by (simp add: fetch_def)
    from 4 n have "k < length ?F"
      unfolding k_def by linarith
    then have "read_files env t (map prefix ps) (length fs) 0 0 = r"
      unfolding t_def r_def by (rule read_files_truncated [OF assms(4)])
    then have "read_files env ((?h1 @ ?P @ ?h2) @ t) (map prefix ps) (length fs) 0
        (length (?h1 @ ?P @ ?h2) + 0) = r"
      unfolding read_files_shift .
    then have rf: "read_files env (?h1 @ ?P @ ?h2 @ t) (map prefix ps) (length fs) 0
        (2 + length ?P + 4) = r"
      by (simp add: add.commute add.left_commute)
    have "parse_decompressed env (take n (container_bytes ps fs)) =
        (case r of Inl e \<Rightarrow> Inl e | Inr xs \<Rightarrow> Inr (map prefix ps, xs))"
      unfolding buf using assms(1,3) f1 rp f2 rf
      by (simp add: parse_decompressed_def read_write_uint16_be read_write_uint32_be
          unat_of_nat16 unat_of_nat32)
    moreover from 4 have "n + unread_tail env 0 fs < length (container_bytes ps fs) \<longleftrightarrow>
        k + unread_tail env 0 fs < length ?F"
      unfolding len k_def by linarith
    ultimately show ?thesis
      by (simp add: r_def)
  qed
qed

subsection \<open>Evaluating concrete archives\<close>

lemma read_files_numeral:
  "read_files env buf prefixes (numeral k) i offset =
     (case read_file env buf prefixes i offset of
        Inl e \<Rightarrow> Inl e
      | Inr (x, offset') \<Rightarrow>
          (case read_files env buf prefixes (pred_numeral k) (Suc i) offset' of
             Inl e \<Rightarrow> Inl e
           | Inr xs \<Rightarrow> Inr (x # xs)))"
  by (simp add: numeral_eq_Suc)

lemma read_prefixes_numeral:
  "read_prefixes buf (numeral k) offset =
     (case fetch buf offset 2 of
        Inl e \<Rightarrow> Inl e
      | Inr b \<Rightarrow>
          let prefix_len = unat (read_uint16_be b) in
          (case fetch buf (offset + 2) prefix_len of
             Inl e \<Rightarrow> Inl e
           | Inr p \<Rightarrow>
               (case read_prefixes buf (pred_numeral k) (offset + 2 + prefix_len) of
                  Inl e \<Rightarrow> Inl e
                | Inr (ps, offset') \<Rightarrow> Inr (p # ps, offset'))))"
  by (simp add: numeral_eq_Suc)

lemmas parse_defs = parse_decompressed_def fetch_def read_uint16_be_def read_uint32_be_def
    read_file_def expand_path_def cstr_def full_path_of_def fopen_name_def strchr_def atoi_def
    isspace_def isdigit_def Let_def read_files_numeral read_prefixes_numeral MAX_PATH_LEN_def

lemmas create_defs = create_binary_format_def binary_capacity_def total_size_def store_def
    write_file_def write_uint16_be_def write_uint32_be_def

lemmas example_defs = example_prefixes_def example_files_def add_files_def archive_add_file_def
   ascii_def example_container_def example_env_def MAX_PATH_LEN_def

subsection \<open>The round trip\<close>

lemma c_string_length: "list_all (\<lambda>p. c_string (prefix p)) ps \<Longrightarrow> list_all (\<lambda>p. length (prefix p) < 65536) ps"
  by (induction ps) (simp_all add: c_string_def MAX_PATH_LEN_def)

lemma record_outcome_eq:
  "record_outcome env =
     (\<lambda>(i, f). if is_duplicate f then Duplicate_skipped (path f)
               else if file_opened env (i, f)
               then File_written (path f) (opened_name env f) (content f)
               else File_not_opened (path f) (opened_name env f))"
  by (simp add: fun_eq_iff record_outcome_def)







subsection \<open>Duplicate records\<close>

text \<open>
  A record with the duplicate marker, anywhere in any buffer: whatever follows the
  2-byte length \<open>dup_len\<close>, and however little of it.
\<close>

lemma read_file_duplicate:
  assumes "length raw < MAX_PATH_LEN" and "expand_path table (cstr raw) = Inr expanded"
  shows "read_file env
           (pre @ write_uint16_be (of_nat (length raw)) @ raw @ write_uint32_be 0xFFFFFFFF @
            write_uint16_be dup_len @ rest) table i (length pre) =
         Inr (Duplicate_skipped expanded, length pre + length raw + 8 + unat dup_len)"
proof -
  let ?t = "write_uint16_be (of_nat (length raw)) @ raw @ write_uint32_be 0xFFFFFFFF @
      write_uint16_be dup_len @ rest"
  from assms(1) have len: "length raw < 65536" "length raw < MAX_PATH_LEN"
    by (simp_all add: MAX_PATH_LEN_def)
  have "read_file env ?t table i 0 =
      Inr (Duplicate_skipped expanded, length raw + 8 + unat dup_len)"
    using len assms(2)
    by (simp add: read_file_def fetch_def read_write_uint16_be read_write_uint32_be
        unat_of_nat16 Let_def)
  then show ?thesis
    using read_file_shift [of env pre ?t table i 0] by simp
qed

text \<open>
  Claim C7, as amended. A record whose 4-byte length field is \<^verbatim>\<open>0xFFFFFFFF\<close>, with a
  stored path shorter than \<open>MAX_PATH_LEN\<close> that expands to \<open>expanded\<close>, at any place of
  any buffer: the loop reads the 2-byte length \<open>dup_len\<close> after the marker and moves the
  offset past that many bytes, which it does not read (they need not be in the buffer);
  it opens and writes no file for the record. In a container that the writer produced
  (within the limits of the format and shorter than \<open>2^32\<close> bytes) the records are treated
  in order, each according to its entry: for a duplicate nothing is opened or written;
  the content of any other entry is written to the file that \<^verbatim>\<open>fopen\<close> opened for it, if
  it opened one.
\<close>

theorem duplicate_records_skipped:
  "(length raw < MAX_PATH_LEN \<and> expand_path table (cstr raw) = Inr expanded \<longrightarrow>
      read_file env
        (pre @ write_uint16_be (of_nat (length raw)) @ raw @ write_uint32_be 0xFFFFFFFF @
         write_uint16_be dup_len @ rest) table i (length pre) =
      Inr (Duplicate_skipped expanded, length pre + length raw + 8 + unat dup_len)) \<and>
   (length prefixes < 65536 \<and> list_all (\<lambda>p. c_string (prefix p)) prefixes \<and>
    length files < 4294967296 \<and> list_all encodable_file files \<and>
    create_binary_format malloc_succeeds prefixes files = Inr bs \<and>
    length bs < 4294967296 \<longrightarrow>
      parse_decompressed env bs =
        Inr (map prefix prefixes,
             map (\<lambda>(i, f). if is_duplicate f then Duplicate_skipped (path f)
                           else if file_opened env (i, f)
                           then File_written (path f) (opened_name env f) (content f)
                           else File_not_opened (path f) (opened_name env f))
               (enumerate 0 files)))"
proof (intro conjI impI)
  assume "length raw < MAX_PATH_LEN \<and> expand_path table (cstr raw) = Inr expanded"
  then show "read_file env
        (pre @ write_uint16_be (of_nat (length raw)) @ raw @ write_uint32_be 0xFFFFFFFF @
         write_uint16_be dup_len @ rest) table i (length pre) =
      Inr (Duplicate_skipped expanded, length pre + length raw + 8 + unat dup_len)"
    by (simp add: read_file_duplicate)
next
  assume a: "length prefixes < 65536 \<and> list_all (\<lambda>p. c_string (prefix p)) prefixes \<and>
    length files < 4294967296 \<and> list_all encodable_file files \<and>
    create_binary_format malloc_succeeds prefixes files = Inr bs \<and>
    length bs < 4294967296"
  then have "bs = container_bytes prefixes files"
    by (blast intro: create_binary_format_Inr)
  moreover from a have "parse_decompressed env (container_bytes prefixes files) =
      Inr (map prefix prefixes, map (record_outcome env) (enumerate 0 files))"
    by (intro parse_complete c_string_length) simp_all
  ultimately show "parse_decompressed env bs =
        Inr (map prefix prefixes,
             map (\<lambda>(i, f). if is_duplicate f then Duplicate_skipped (path f)
                           else if file_opened env (i, f)
                           then File_written (path f) (opened_name env f) (content f)
                           else File_not_opened (path f) (opened_name env f))
               (enumerate 0 files))"
    by (simp add: record_outcome_eq)
qed

text \<open>
  Claim C7 as stated fails. A file \<^verbatim>\<open>a\<close> with content \<^verbatim>\<open>x\<close> and a duplicate \<^verbatim>\<open>b\<close> of it:
  the parser writes \<^verbatim>\<open>extracted/a\<close> and skips \<^verbatim>\<open>b\<close>, which gets no content.
\<close>

theorem duplicate_counterexample:
  "create_binary_format (\<lambda>n. True) [] duplicate_files = Inr duplicate_container \<and>
   parse_decompressed example_env duplicate_container =
     Inr ([], [File_written (ascii ''a'') (ascii ''extracted/a'') (ascii ''x''),
               Duplicate_skipped (ascii ''b'')])"
proof -
  have "create_binary_format (\<lambda>n. True) [] duplicate_files = Inr duplicate_container"
    by (simp add: create_defs duplicate_files_def duplicate_container_def ascii_def)
  moreover have "parse_decompressed example_env duplicate_container =
     Inr ([], [File_written (ascii ''a'') (ascii ''extracted/a'') (ascii ''x''),
               Duplicate_skipped (ascii ''b'')])"
    by (simp add: parse_defs duplicate_container_def example_env_def ascii_def)
  ultimately show ?thesis
    by simp
qed

text \<open>
  Two instances of the theorem. A buffer that ends after the record of a duplicate \<^verbatim>\<open>b\<close>
  whose 2-byte length says 5, with none of the five bytes there: the record is skipped
  and the offset is 15, past the 10 bytes of the buffer. And the archive of the
  counterexample.
\<close>

theorem duplicate_records_skipped_witness:
  "length (ascii ''b'') < MAX_PATH_LEN \<and>
   expand_path [] (cstr (ascii ''b'')) = Inr (ascii ''b'') \<and>
   read_file example_env [7, 0, 1, 98, 255, 255, 255, 255, 0, 5] [] 0 1 =
     Inr (Duplicate_skipped (ascii ''b''), 15) \<and>
   length ([] :: PathPrefix list) < 65536 \<and>
   list_all (\<lambda>p. c_string (prefix p)) [] \<and>
   length duplicate_files < 4294967296 \<and>
   list_all encodable_file duplicate_files \<and>
   create_binary_format (\<lambda>n. True) [] duplicate_files = Inr duplicate_container \<and>
   length duplicate_container < 4294967296 \<and>
   parse_decompressed example_env duplicate_container =
     Inr ([], [File_written (ascii ''a'') (ascii ''extracted/a'') (ascii ''x''),
               Duplicate_skipped (ascii ''b'')])"
proof -
  have r1: "length (ascii ''b'') < MAX_PATH_LEN"
    and r2: "expand_path [] (cstr (ascii ''b'')) = Inr (ascii ''b'')"
    by (simp_all add: ascii_def MAX_PATH_LEN_def expand_path_def cstr_def)
  have h1: "length ([] :: PathPrefix list) < 65536"
    and h2: "list_all (\<lambda>p. c_string (prefix p)) []"
    and h3: "length duplicate_files < 4294967296"
    and h4: "list_all encodable_file duplicate_files"
    by (simp_all add: duplicate_files_def ascii_def encodable_file_def c_string_def
        plain_path_def MAX_PATH_LEN_def)
  have h5: "create_binary_format (\<lambda>n. True) [] duplicate_files = Inr duplicate_container"
    by (simp add: create_defs duplicate_files_def duplicate_container_def ascii_def)
  have h6: "length duplicate_container < 4294967296"
    by (simp add: duplicate_container_def)
  have o: "file_opened example_env (0, duplicate_files ! 0)"
    "opened_name example_env (duplicate_files ! 0) = ascii ''extracted/a''"
    by (simp_all add: duplicate_files_def example_env_def file_opened_def opened_name_def
        full_path_of_def fopen_name_def ascii_def MAX_PATH_LEN_def)
  have b: "[7, 0, 1, 98, 255, 255, 255, 255, 0, 5] =
      [7] @ write_uint16_be (of_nat (length (ascii ''b''))) @ ascii ''b'' @
      write_uint32_be 0xFFFFFFFF @ write_uint16_be 5 @ []"
    by (simp add: write_uint16_be_def write_uint32_be_def ascii_def)
  from duplicate_records_skipped [where raw = "ascii ''b''" and table = "[]"
      and expanded = "ascii ''b''" and env = example_env and pre = "[7]" and dup_len = 5
      and rest = "[]" and i = 0 and prefixes = "[]" and files = duplicate_files
      and malloc_succeeds = "\<lambda>n. True" and bs = duplicate_container]
    r1 r2 h1 h2 h3 h4 h5 h6 o
  show ?thesis
    unfolding b
    by (simp add: duplicate_files_def enumerate_eq_zip upt_rec ascii_def)
qed

subsection \<open>Truncated input\<close>

text \<open>
  Claim C1, as amended. The parser compares no length field with the length of the
  buffer. Take a container as the writer produces it (literal paths, duplicates allowed,
  within the limits of the format, shorter than \<open>2^32\<close> bytes) and cut it at any byte
  offset \<open>n\<close> before its end. If the cut takes away only bytes that the parser never
  reads, namely bytes of the path that ends the record of a last, duplicate entry, or
  bytes of the content of a last entry whose file cannot be opened, then the parser does
  what it does on the whole container, with the offset past the end of the buffer. In
  every other case it reads past the end of the buffer. It never rejects the input.
\<close>

theorem truncated_container_reads_past_end:
  assumes "length prefixes < 65536" and "list_all (\<lambda>p. c_string (prefix p)) prefixes"
    and "length files < 4294967296" and "list_all encodable_file files"
    and "create_binary_format malloc_succeeds prefixes files = Inr bs"
    and "length bs < 4294967296"
    and "n < length bs"
  shows "parse_decompressed env (take n bs) =
           (if n + unread_tail env 0 files < length bs then Inl Read_past_end
            else Inr (map prefix prefixes, map (record_outcome env) (enumerate 0 files)))"
proof -
  from assms(5) have bs: "bs = container_bytes prefixes files"
    by (rule create_binary_format_Inr)
  with assms(7) have "n < length (container_bytes prefixes files)"
    by simp
  with parse_truncated [OF assms(1) c_string_length [OF assms(2)] assms(3,4)] bs
  show ?thesis
    by simp
qed

text \<open>
  Claim C1 as stated fails. The 27-byte container of the example, cut after 26 bytes:
  the parser reads the four bytes of the last length field, of which only three are
  there. No outcome of the parser is a rejection of the input.
\<close>

theorem truncated_container_counterexample:
  "create_binary_format (\<lambda>n. True) example_prefixes example_files = Inr example_container \<and>
   length example_container = 27 \<and>
   parse_decompressed example_env (take 26 example_container) = Inl Read_past_end"
proof -
  have "create_binary_format (\<lambda>n. True) example_prefixes example_files = Inr example_container"
    by (simp add: create_defs example_defs)
  moreover have "length example_container = 27"
    by (simp add: example_container_def)
  moreover have "parse_decompressed example_env (take 26 example_container) = Inl Read_past_end"
    by (simp add: parse_defs example_defs)
  ultimately show ?thesis
    by simp
qed

text \<open>
  Three instances of the theorem. The container of the example cut after 18 bytes,
  inside the content of its first file: a read past the end. The container of a file
  \<^verbatim>\<open>a\<close> and a duplicate \<^verbatim>\<open>b\<close> of it, cut after 23 of its 24 bytes, inside the path that
  ends the record of \<^verbatim>\<open>b\<close>: parsed as the whole container is. The container of one file
  \<^verbatim>\<open>d/a\<close>, which is not opened, cut after 15 of its 16 bytes, inside the content: parsed
  as the whole container is.
\<close>

theorem truncated_container_reads_past_end_witness:
  "length example_prefixes < 65536 \<and>
   list_all (\<lambda>p. c_string (prefix p)) example_prefixes \<and>
   length example_files < 4294967296 \<and>
   list_all encodable_file example_files \<and>
   create_binary_format (\<lambda>n. True) example_prefixes example_files = Inr example_container \<and>
   length example_container < 4294967296 \<and>
   18 < length example_container \<and>
   parse_decompressed example_env (take 18 example_container) = Inl Read_past_end \<and>
   length duplicate_files < 4294967296 \<and>
   list_all encodable_file duplicate_files \<and>
   create_binary_format (\<lambda>n. True) [] duplicate_files = Inr duplicate_container \<and>
   length duplicate_container < 4294967296 \<and>
   23 < length duplicate_container \<and>
   parse_decompressed example_env (take 23 duplicate_container) =
     Inr ([], [File_written (ascii ''a'') (ascii ''extracted/a'') (ascii ''x''),
               Duplicate_skipped (ascii ''b'')]) \<and>
   length nested_files < 4294967296 \<and>
   list_all encodable_file nested_files \<and>
   create_binary_format (\<lambda>n. True) [] nested_files = Inr nested_container \<and>
   length nested_container < 4294967296 \<and>
   15 < length nested_container \<and>
   parse_decompressed example_env (take 15 nested_container) =
     Inr ([], [File_not_opened (ascii ''d/a'') (ascii ''extracted'')])"
proof -
  have h1: "length example_prefixes < 65536"
    and h2: "list_all (\<lambda>p. c_string (prefix p)) example_prefixes"
    and h3: "length example_files < 4294967296"
    and h4: "list_all encodable_file example_files"
    by (simp_all add: example_defs encodable_file_def c_string_def plain_path_def)
  have h5: "create_binary_format (\<lambda>n. True) example_prefixes example_files =
      Inr example_container"
    by (simp add: create_defs example_defs)
  have h6: "length example_container < 4294967296" and h7: "18 < length example_container"
    by (simp_all add: example_container_def)
  have t1: "unread_tail example_env 0 example_files = 0"
    by (simp add: example_defs skipped_bytes_def file_opened_def full_path_of_def
        fopen_name_def)
  have e1: "length ([] :: PathPrefix list) < 65536"
    and e2: "list_all (\<lambda>p. c_string (prefix p)) []"
    by simp_all
  have d3: "length duplicate_files < 4294967296"
    and d4: "list_all encodable_file duplicate_files"
    by (simp_all add: duplicate_files_def ascii_def encodable_file_def c_string_def
        plain_path_def MAX_PATH_LEN_def)
  have d5: "create_binary_format (\<lambda>n. True) [] duplicate_files = Inr duplicate_container"
    by (simp add: create_defs duplicate_files_def duplicate_container_def ascii_def)
  have d6: "length duplicate_container < 4294967296" and d7: "23 < length duplicate_container"
    by (simp_all add: duplicate_container_def)
  have t2: "unread_tail example_env 0 duplicate_files = 1"
    by (simp add: duplicate_files_def skipped_bytes_def ascii_def)
  have o2: "map (record_outcome example_env) (enumerate 0 duplicate_files) =
      [File_written (ascii ''a'') (ascii ''extracted/a'') (ascii ''x''),
       Duplicate_skipped (ascii ''b'')]"
    by (simp add: duplicate_files_def record_outcome_def file_opened_def opened_name_def
        full_path_of_def fopen_name_def example_env_def ascii_def MAX_PATH_LEN_def)
  have n3: "length nested_files < 4294967296"
    and n4: "list_all encodable_file nested_files"
    by (simp_all add: nested_files_def add_files_def archive_add_file_def ascii_def
        encodable_file_def c_string_def plain_path_def MAX_PATH_LEN_def)
  have n5: "create_binary_format (\<lambda>n. True) [] nested_files = Inr nested_container"
    by (simp add: create_defs nested_files_def nested_container_def add_files_def
        archive_add_file_def ascii_def MAX_PATH_LEN_def)
  have n6: "length nested_container < 4294967296" and n7: "15 < length nested_container"
    by (simp_all add: nested_container_def)
  have t3: "unread_tail example_env 0 nested_files = 1"
    by (simp add: nested_files_def add_files_def archive_add_file_def ascii_def
        skipped_bytes_def file_opened_def full_path_of_def fopen_name_def example_env_def
        MAX_PATH_LEN_def)
  have o3: "map (record_outcome example_env) (enumerate 0 nested_files) =
      [File_not_opened (ascii ''d/a'') (ascii ''extracted'')]"
    by (simp add: nested_files_def add_files_def archive_add_file_def record_outcome_def
        file_opened_def opened_name_def full_path_of_def fopen_name_def example_env_def
        ascii_def MAX_PATH_LEN_def)
  from truncated_container_reads_past_end [OF h1 h2 h3 h4 h5 h6 h7, of example_env]
    truncated_container_reads_past_end [OF e1 e2 d3 d4 d5 d6 d7, of example_env]
    truncated_container_reads_past_end [OF e1 e2 n3 n4 n5 n6 n7, of example_env]
    h1 h2 h3 h4 h5 h6 h7 d3 d4 d5 d6 d7 n3 n4 n5 n6 n7
  show ?thesis
    by (simp add: t1 t2 t3 o2 o3 example_container_def duplicate_container_def
        nested_container_def)
qed

subsection \<open>A content length equal to the duplicate marker\<close>




subsection \<open>Path expansion\<close>

lemma isdigit_not_isspace: "isdigit c \<Longrightarrow> \<not> isspace c"
  by (auto simp add: isdigit_def isspace_def word_le_nat_alt)

lemma isdigit_not_special: "isdigit c \<Longrightarrow> c \<noteq> 36 \<and> c \<noteq> 45 \<and> c \<noteq> 43"
  by (auto simp add: isdigit_def word_le_nat_alt)

lemma isspace_not_dollar: "isspace c \<Longrightarrow> c \<noteq> 36"
  by (auto simp add: isspace_def word_le_nat_alt)

lemma digits_value_foldl:
  "list_all isdigit ds \<Longrightarrow> \<not> isdigit c \<Longrightarrow>
   digits_value acc (ds @ c # rest) = foldl (\<lambda>a c. a * 10 + (unat c - 48)) acc ds"
  by (induction ds arbitrary: acc) simp_all

lemma digits_value_index_text:
  assumes "list_all isdigit ds" and "tr \<noteq> [] \<longrightarrow> \<not> isdigit (hd tr)"
  shows "digits_value 0 (ds @ tr @ 36 # suffix) = decimal_value ds"
proof (cases tr)
  case Nil
  have "\<not> isdigit 36"
    by (simp add: isdigit_def)
  with assms(1) Nil show ?thesis
    by (simp add: digits_value_foldl decimal_value_def)
next
  case (Cons c cs)
  with assms(2) have "\<not> isdigit c"
    by simp
  with assms(1) have "digits_value 0 (ds @ c # cs @ 36 # suffix) = decimal_value ds"
    by (simp add: digits_value_foldl decimal_value_def)
  with Cons show ?thesis
    by simp
qed

text \<open>
  What \<^verbatim>\<open>atoi\<close> returns for a text that ends at a \<^verbatim>\<open>'$'\<close>: white space \<open>ws\<close>, a sign \<open>sg\<close>
  or none, digits \<open>ds\<close> and a trailing text \<open>tr\<close> that does not start with a digit.
\<close>

lemma atoi_index_text:
  assumes ws: "list_all isspace ws" and sg: "sg = [] \<or> sg = [43] \<or> sg = [45]"
    and ds: "list_all isdigit ds" and tr: "tr \<noteq> [] \<longrightarrow> \<not> isdigit (hd tr)"
    and canon: "sg = [] \<and> ds = [] \<and> tr \<noteq> [] \<longrightarrow>
      \<not> isspace (hd tr) \<and> hd tr \<noteq> 43 \<and> hd tr \<noteq> 45"
  shows "atoi (ws @ sg @ ds @ tr @ 36 # suffix) =
           (let v = (if sg = [45] then - int (decimal_value ds) else int (decimal_value ds))
            in if - 2147483648 \<le> v \<and> v \<le> 2147483647 then Some v else None)"
proof -
  define Y where "Y = ds @ tr @ 36 # suffix"
  have dv: "digits_value 0 Y = decimal_value ds"
    unfolding Y_def using ds tr by (rule digits_value_index_text)
  have Y: "Y \<noteq> []"
    by (simp add: Y_def)
  have hdY: "sg = [] \<Longrightarrow> \<not> isspace (hd Y) \<and> hd Y \<noteq> 43 \<and> hd Y \<noteq> 45"
  proof (cases ds)
    case (Cons d ds')
    with ds show ?thesis
      by (simp add: Y_def isdigit_not_isspace isdigit_not_special)
  next
    case dsNil: Nil
    assume s: "sg = []"
    show ?thesis
    proof (cases tr)
      case Nil
      with dsNil show ?thesis
        by (simp add: Y_def isspace_def)
    next
      case (Cons c cs)
      with dsNil s canon show ?thesis
        by (simp add: Y_def)
    qed
  qed
  have sp43: "\<not> isspace 43" and sp45: "\<not> isspace 45"
    by (simp_all add: isspace_def)
  from ws have drop: "dropWhile isspace (ws @ sg @ Y) = dropWhile isspace (sg @ Y)"
    by (simp add: dropWhile_append2 list_all_iff)
  from sg consider "sg = []" | "sg = [43]" | "sg = [45]"
    by blast
  then have "atoi (ws @ sg @ Y) =
      (let v = (if sg = [45] then - int (decimal_value ds) else int (decimal_value ds))
       in if - 2147483648 \<le> v \<and> v \<le> 2147483647 then Some v else None)"
  proof cases
    case 1
    with hdY Y have "dropWhile isspace (sg @ Y) = Y"
      by (cases Y) simp_all
    with 1 hdY Y dv show ?thesis
      unfolding atoi_def drop by (simp add: Let_def)
  next
    case 2
    with sp43 have "dropWhile isspace (sg @ Y) = 43 # Y"
      by simp
    with 2 dv show ?thesis
      unfolding atoi_def drop by (simp add: Let_def)
  next
    case 3
    with sp45 have "dropWhile isspace (sg @ Y) = 45 # Y"
      by simp
    with 3 dv show ?thesis
      unfolding atoi_def drop by (simp add: Let_def)
  qed
  then show ?thesis
    by (simp add: Y_def)
qed

lemma strchr_first: "c \<notin> set xs \<Longrightarrow> strchr (xs @ c # rest) c = Some (c # rest)"
  by (induction xs) (auto simp add: strchr_def)

lemma index_text_no_dollar:
  assumes "list_all isspace ws" and "sg = [] \<or> sg = [43] \<or> sg = [45]"
    and "list_all isdigit ds" and "36 \<notin> set tr"
  shows "36 \<notin> set (ws @ sg @ ds @ tr)"
proof -
  have "\<not> isspace 36" and "\<not> isdigit 36"
    by (simp_all add: isspace_def isdigit_def)
  with assms show ?thesis
    by (auto simp add: list_all_iff)
qed

text \<open>
  Every text is of that form: the white space at its front, the sign if one follows, the
  digits that follow, and the rest.
\<close>

lemma index_text_form:
  "\<exists>ws sg ds tr. body = ws @ sg @ ds @ tr \<and> list_all isspace ws \<and>
     (sg = [] \<or> sg = [43] \<or> sg = [45]) \<and> list_all isdigit ds \<and>
     (tr \<noteq> [] \<longrightarrow> \<not> isdigit (hd tr)) \<and>
     (sg = [] \<and> ds = [] \<and> tr \<noteq> [] \<longrightarrow> \<not> isspace (hd tr) \<and> hd tr \<noteq> 43 \<and> hd tr \<noteq> 45)"
proof -
  define ws where "ws = takeWhile isspace body"
  define r1 where "r1 = dropWhile isspace body"
  define sg where "sg = (if r1 \<noteq> [] \<and> (hd r1 = 43 \<or> hd r1 = 45) then [hd r1] else [])"
  define r2 where "r2 = (if r1 \<noteq> [] \<and> (hd r1 = 43 \<or> hd r1 = 45) then tl r1 else r1)"
  define ds where "ds = takeWhile isdigit r2"
  define tr where "tr = dropWhile isdigit r2"
  have "body = ws @ r1"
    by (simp add: ws_def r1_def)
  moreover have "r1 = sg @ r2"
    by (simp add: sg_def r2_def)
  moreover have "r2 = ds @ tr"
    by (simp add: ds_def tr_def)
  ultimately have "body = ws @ sg @ ds @ tr"
    by simp
  moreover have "list_all isspace ws"
    by (auto simp add: ws_def list_all_iff dest: set_takeWhileD)
  moreover have "sg = [] \<or> sg = [43] \<or> sg = [45]"
    by (auto simp add: sg_def)
  moreover have "list_all isdigit ds"
    by (auto simp add: ds_def list_all_iff dest: set_takeWhileD)
  moreover have "tr \<noteq> [] \<longrightarrow> \<not> isdigit (hd tr)"
    unfolding tr_def by (simp add: hd_dropWhile)
  moreover have "sg = [] \<and> ds = [] \<and> tr \<noteq> [] \<longrightarrow>
      \<not> isspace (hd tr) \<and> hd tr \<noteq> 43 \<and> hd tr \<noteq> 45"
  proof (intro impI)
    assume a: "sg = [] \<and> ds = [] \<and> tr \<noteq> []"
    with \<open>r2 = ds @ tr\<close> have "tr = r2"
      by simp
    moreover from a have "r2 = r1" and "r1 = [] \<or> (hd r1 \<noteq> 43 \<and> hd r1 \<noteq> 45)"
      by (auto simp add: sg_def r2_def split: if_splits)
    moreover have "r1 \<noteq> [] \<longrightarrow> \<not> isspace (hd r1)"
      unfolding r1_def by (simp add: hd_dropWhile)
    ultimately show "\<not> isspace (hd tr) \<and> hd tr \<noteq> 43 \<and> hd tr \<noteq> 45"
      using a by auto
  qed
  ultimately show ?thesis
    by blast
qed

text \<open>
  Claim C6, as amended. A stored path that does not start with \<^verbatim>\<open>'$'\<close>, or that has no
  second \<^verbatim>\<open>'$'\<close>, is used as it is. Every other stored path is expanded. The text
  between its first two \<^verbatim>\<open>'$'\<close> is read as \<^verbatim>\<open>atoi\<close> reads it: white space \<open>ws\<close> is skipped,
  a sign \<open>sg\<close> is taken if there is one, the digits \<open>ds\<close> that follow give the number, and
  whatever comes after them (\<open>tr\<close>) is ignored; no digits give 0. A number outside
  \<^verbatim>\<open>int\<close> is undefined behaviour. Otherwise the number is the index, used without a check
  against the table: from 0 to below the number of prefixes the result is that prefix
  followed by the text after the second \<^verbatim>\<open>'$'\<close>, cut to \<open>MAX_PATH_LEN - 1\<close> bytes; a
  negative index, and an index that is not below the number of prefixes, read outside
  the table. The first conjunct is the path without \<^verbatim>\<open>'$'\<close> at its front, the second the
  path without a second \<^verbatim>\<open>'$'\<close>; the third says that every text \<open>body\<close> between two
  \<^verbatim>\<open>'$'\<close> has the form \<open>ws @ sg @ ds @ tr\<close>, and the fourth gives the expansion for that
  form.
\<close>

theorem expand_path_cases:
  "(p = [] \<or> hd p \<noteq> 36 \<longrightarrow> expand_path prefixes p = Inr p) \<and>
   (36 \<notin> set rest \<longrightarrow> expand_path prefixes (36 # rest) = Inr (36 # rest)) \<and>
   (36 \<notin> set body \<longrightarrow>
      (\<exists>ws sg ds tr. body = ws @ sg @ ds @ tr \<and>
         list_all isspace ws \<and> (sg = [] \<or> sg = [43] \<or> sg = [45]) \<and> list_all isdigit ds \<and>
         36 \<notin> set tr \<and> (tr \<noteq> [] \<longrightarrow> \<not> isdigit (hd tr)) \<and>
         (sg = [] \<and> ds = [] \<and> tr \<noteq> [] \<longrightarrow>
            \<not> isspace (hd tr) \<and> hd tr \<noteq> 43 \<and> hd tr \<noteq> 45))) \<and>
   (list_all isspace ws \<and> (sg = [] \<or> sg = [43] \<or> sg = [45]) \<and> list_all isdigit ds \<and>
    36 \<notin> set tr \<and> (tr \<noteq> [] \<longrightarrow> \<not> isdigit (hd tr)) \<and>
    (sg = [] \<and> ds = [] \<and> tr \<noteq> [] \<longrightarrow> \<not> isspace (hd tr) \<and> hd tr \<noteq> 43 \<and> hd tr \<noteq> 45) \<longrightarrow>
      expand_path prefixes (36 # ws @ sg @ ds @ tr @ 36 # suffix) =
        (let v = (if sg = [45] then - int (decimal_value ds) else int (decimal_value ds)) in
         if v < - 2147483648 \<or> 2147483647 < v then Inl Int_overflow
         else if 0 \<le> v \<and> v < int (length prefixes)
         then Inr (take (MAX_PATH_LEN - 1) (cstr (prefixes ! nat v) @ suffix))
         else Inl Prefix_index_out_of_range))"
proof (intro conjI impI)
  assume "p = [] \<or> hd p \<noteq> 36"
  then show "expand_path prefixes p = Inr p"
    by (auto simp add: expand_path_def)
next
  assume "36 \<notin> set rest"
  then show "expand_path prefixes (36 # rest) = Inr (36 # rest)"
    by (simp add: expand_path_def strchr_def)
next
  assume b: "36 \<notin> set body"
  obtain ws sg ds tr where f: "body = ws @ sg @ ds @ tr" "list_all isspace ws"
    "sg = [] \<or> sg = [43] \<or> sg = [45]" "list_all isdigit ds"
    "tr \<noteq> [] \<longrightarrow> \<not> isdigit (hd tr)"
    "sg = [] \<and> ds = [] \<and> tr \<noteq> [] \<longrightarrow> \<not> isspace (hd tr) \<and> hd tr \<noteq> 43 \<and> hd tr \<noteq> 45"
    using index_text_form [of body] by blast
  from b f(1) have "36 \<notin> set tr"
    by simp
  with f show "\<exists>ws sg ds tr. body = ws @ sg @ ds @ tr \<and>
         list_all isspace ws \<and> (sg = [] \<or> sg = [43] \<or> sg = [45]) \<and> list_all isdigit ds \<and>
         36 \<notin> set tr \<and> (tr \<noteq> [] \<longrightarrow> \<not> isdigit (hd tr)) \<and>
         (sg = [] \<and> ds = [] \<and> tr \<noteq> [] \<longrightarrow>
            \<not> isspace (hd tr) \<and> hd tr \<noteq> 43 \<and> hd tr \<noteq> 45)"
    by blast
next
  assume a: "list_all isspace ws \<and> (sg = [] \<or> sg = [43] \<or> sg = [45]) \<and> list_all isdigit ds \<and>
    36 \<notin> set tr \<and> (tr \<noteq> [] \<longrightarrow> \<not> isdigit (hd tr)) \<and>
    (sg = [] \<and> ds = [] \<and> tr \<noteq> [] \<longrightarrow> \<not> isspace (hd tr) \<and> hd tr \<noteq> 43 \<and> hd tr \<noteq> 45)"
  define v where "v = (if sg = [45] then - int (decimal_value ds) else int (decimal_value ds))"
  from a have "atoi (ws @ sg @ ds @ tr @ 36 # suffix) =
      (if - 2147483648 \<le> v \<and> v \<le> 2147483647 then Some v else None)"
    unfolding v_def using atoi_index_text [of ws sg ds tr suffix] by (simp add: Let_def)
  moreover from a have "36 \<notin> set (ws @ sg @ ds @ tr)"
    by (intro index_text_no_dollar) simp_all
  then have "strchr ((ws @ sg @ ds @ tr) @ 36 # suffix) 36 = Some (36 # suffix)"
    by (rule strchr_first)
  then have "strchr (ws @ sg @ ds @ tr @ 36 # suffix) 36 = Some (36 # suffix)"
    by simp
  ultimately have "expand_path prefixes (36 # ws @ sg @ ds @ tr @ 36 # suffix) =
      (if v < - 2147483648 \<or> 2147483647 < v then Inl Int_overflow
       else if 0 \<le> v \<and> v < int (length prefixes)
       then Inr (take (MAX_PATH_LEN - 1) (cstr (prefixes ! nat v) @ suffix))
       else Inl Prefix_index_out_of_range)"
    by (auto simp add: expand_path_def)
  then show "expand_path prefixes (36 # ws @ sg @ ds @ tr @ 36 # suffix) =
        (let v = (if sg = [45] then - int (decimal_value ds) else int (decimal_value ds)) in
         if v < - 2147483648 \<or> 2147483647 < v then Inl Int_overflow
         else if 0 \<le> v \<and> v < int (length prefixes)
         then Inr (take (MAX_PATH_LEN - 1) (cstr (prefixes ! nat v) @ suffix))
         else Inl Prefix_index_out_of_range)"
    by (simp add: v_def Let_def)
qed

text \<open>
  Claim C6 as stated fails. A container with an empty prefix table and one record whose
  stored path is \<^verbatim>\<open>$0$a\<close>: the parser indexes the empty table. No outcome of the parser is
  a rejection of the input.
\<close>

theorem prefix_index_counterexample:
  "parse_decompressed example_env [0, 0, 0, 0, 0, 1, 0, 4, 36, 48, 36, 97, 0, 0, 0, 0] =
     Inl Prefix_index_out_of_range"
  by (simp add: parse_defs example_env_def)

text \<open>
  The cases at a table of two prefixes: the literal path \<^verbatim>\<open>a/b\<close>, the path \<^verbatim>\<open>$5f\<close> with
  one \<^verbatim>\<open>'$'\<close>, and the paths \<^verbatim>\<open>$1$f\<close> (index 1), \<^verbatim>\<open>$0x$b\<close> (index 0, the letter after the
  digit is ignored), \<^verbatim>\<open>$ +1$c\<close> (index 1 after a blank and a plus sign), \<^verbatim>\<open>$-1$z\<close> (index
  \<open>-1\<close>) and \<^verbatim>\<open>$2$f\<close> (index 2).
\<close>

theorem expand_path_cases_witness:
  "hd (ascii ''a/b'') \<noteq> 36 \<and>
   expand_path [ascii ''x/'', ascii ''d/''] (ascii ''a/b'') = Inr (ascii ''a/b'') \<and>
   36 \<notin> set (ascii ''5f'') \<and>
   expand_path [ascii ''x/'', ascii ''d/''] (ascii ''$5f'') = Inr (ascii ''$5f'') \<and>
   list_all isdigit (ascii ''1'') \<and>
   expand_path [ascii ''x/'', ascii ''d/''] (ascii ''$1$f'') = Inr (ascii ''d/f'') \<and>
   36 \<notin> set (ascii ''0x'') \<and>
   list_all isdigit (ascii ''0'') \<and> 36 \<notin> set (ascii ''x'') \<and> \<not> isdigit (hd (ascii ''x'')) \<and>
   expand_path [ascii ''x/'', ascii ''d/''] (ascii ''$0x$b'') = Inr (ascii ''x/b'') \<and>
   list_all isspace (ascii '' '') \<and>
   expand_path [ascii ''x/'', ascii ''d/''] (ascii ''$ +1$c'') = Inr (ascii ''d/c'') \<and>
   expand_path [ascii ''x/'', ascii ''d/''] (ascii ''$-1$z'') = Inl Prefix_index_out_of_range \<and>
   list_all isdigit (ascii ''2'') \<and>
   expand_path [ascii ''x/'', ascii ''d/''] (ascii ''$2$f'') = Inl Prefix_index_out_of_range"
proof -
  have h1: "hd (ascii ''a/b'') \<noteq> 36" and h2: "36 \<notin> set (ascii ''5f'')"
    and h3: "list_all isdigit (ascii ''1'')" "decimal_value (ascii ''1'') = 1"
    and h4: "list_all isdigit (ascii ''2'')" "decimal_value (ascii ''2'') = 2"
    and h5: "list_all isdigit (ascii ''0'')" "decimal_value (ascii ''0'') = 0"
    and h6: "36 \<notin> set (ascii ''x'')" "\<not> isdigit (hd (ascii ''x''))"
    and h7: "list_all isspace (ascii '' '')"
    and h8: "36 \<notin> set (ascii ''0x'')"
    by (simp_all add: ascii_def isdigit_def isspace_def decimal_value_def)
  note t = expand_path_cases [where prefixes = "[ascii ''x/'', ascii ''d/'']"
      and p = "ascii ''a/b''" and rest = "ascii ''5f''" and body = "ascii ''0x''"]
  from t [where ws = "[]" and sg = "[]" and ds = "ascii ''1''" and tr = "[]"
      and suffix = "ascii ''f''"]
    t [where ws = "[]" and sg = "[]" and ds = "ascii ''0''" and tr = "ascii ''x''"
      and suffix = "ascii ''b''"]
    t [where ws = "ascii '' ''" and sg = "[43]" and ds = "ascii ''1''" and tr = "[]"
      and suffix = "ascii ''c''"]
    t [where ws = "[]" and sg = "[45]" and ds = "ascii ''1''" and tr = "[]"
      and suffix = "ascii ''z''"]
    t [where ws = "[]" and sg = "[]" and ds = "ascii ''2''" and tr = "[]"
      and suffix = "ascii ''f''"]
    h1 h2 h3 h4 h5 h6 h7 h8
  show ?thesis
    by (simp add: ascii_def cstr_def MAX_PATH_LEN_def)
qed

subsection \<open>The stored digest\<close>

text \<open>
  Claim C5, as amended. For an archive whose checksummed flag is set, the 32 bytes of the
  stored digest are skipped: whatever they are, extraction does the same. The digest is
  not recomputed and no outcome of extraction is a digest mismatch; a changed payload is
  only noticed when the decoder rejects it.
\<close>

theorem stored_digest_ignored:
  assumes "length header = 19" and "(header ! 10) AND FLAG_CHECKSUMMED \<noteq> 0"
    and "length digest = 32" and "length digest' = 32"
  shows "extract_archive lzma_code env (header @ digest @ payload) =
         extract_archive lzma_code env (header @ digest' @ payload)"
proof -
  have "extract_archive lzma_code env (header @ d @ payload) =
      (if take 8 header \<noteq> KUNDA_MAGIC then Inl Invalid_archive
       else case lzma_code payload (unat (read_uint32_be (take 4 (drop 15 header))))
                   (unat (read_uint32_be (take 4 (drop 11 header)))) of
              None \<Rightarrow> Inl Decompression_failed
            | Some decompressed \<Rightarrow> parse_decompressed env decompressed)"
    if "length d = 32" for d
    using assms(1,2) that
    by (simp add: extract_archive_def fetch_def hd_drop_conv_nth Let_def)
  with assms(3,4) show ?thesis
    by simp
qed

text \<open>
  Claim C5 as stated fails. Two archives with the checksummed flag and the same payload,
  one with a digest of 32 zero bytes and one with 32 bytes \<^verbatim>\<open>FF\<close>: at most one of the two
  digests is the digest of the payload, and both archives are extracted, writing the
  file. The decoder here is a stand-in that copies its input, since liblzma is not part
  of the repository.
\<close>

theorem stored_digest_counterexample:
  "extract_archive stored_decoder example_env
     (example_header @ replicate 32 0 @ example_payload) =
     Inr ([], [File_written (ascii ''a'') (ascii ''extracted/a'') (ascii ''x'')]) \<and>
   extract_archive stored_decoder example_env
     (example_header @ replicate 32 255 @ example_payload) =
     Inr ([], [File_written (ascii ''a'') (ascii ''extracted/a'') (ascii ''x'')])"
proof -
  have p: "parse_decompressed example_env example_payload =
      Inr ([], [File_written (ascii ''a'') (ascii ''extracted/a'') (ascii ''x'')])"
    by (simp add: parse_defs example_payload_def example_env_def ascii_def)
  have "extract_archive stored_decoder example_env
      (example_header @ replicate 32 b @ example_payload) =
      parse_decompressed example_env example_payload" for b
    by (simp add: extract_archive_def example_header_def KUNDA_MAGIC_def ascii_def fetch_def
        write_uint32_be_def read_uint32_be_def FLAG_CHECKSUMMED_def stored_decoder_def
        example_payload_def Let_def)
  with p show ?thesis
    by simp
qed

text \<open>The same two archives as an instance of the theorem.\<close>

theorem stored_digest_ignored_witness:
  "length example_header = 19 \<and> (example_header ! 10) AND FLAG_CHECKSUMMED \<noteq> 0 \<and>
   length (replicate 32 (0 :: byte)) = 32 \<and> length (replicate 32 (255 :: byte)) = 32 \<and>
   extract_archive stored_decoder example_env
     (example_header @ replicate 32 0 @ example_payload) =
   extract_archive stored_decoder example_env
     (example_header @ replicate 32 255 @ example_payload)"
proof -
  have h1: "length example_header = 19"
    and h2: "(example_header ! 10) AND FLAG_CHECKSUMMED \<noteq> 0"
    by (simp_all add: example_header_def KUNDA_MAGIC_def ascii_def FLAG_CHECKSUMMED_def)
  have h3: "length (replicate 32 (0 :: byte)) = 32" and h4: "length (replicate 32 (255 :: byte)) = 32"
    by simp_all
  from stored_digest_ignored [OF h1 h2 h3 h4, of stored_decoder example_env example_payload]
    h1 h2
  show ?thesis
    by simp
qed

end
